theory Spec2Isabelle
  imports Main
begin

section \<open>Python values and strings\<close>

text \<open>
  The program is a Python script. A Python \<open>str\<close> is modelled as a \<open>string\<close>; a
  \<open>char\<close> stands for a code point below 256. The functions of the script check their
  argument with \<open>isinstance(pool, str)\<close>, so an argument is a value of \<open>pyval\<close>, of which
  only \<open>PStr\<close> is a \<open>str\<close>.
\<close>

datatype pyval = PStr string | PBytes string | PInt int | PBool bool | PNone

fun isinstance_str :: "pyval \<Rightarrow> bool" where
  "isinstance_str (PStr _) = True"
| "isinstance_str _ = False"

text \<open>\<open>type(v)\<close> as \<open>format\<close> prints it, for the messages of the exceptions.\<close>

fun type_name :: "pyval \<Rightarrow> string" where
  "type_name (PStr _) = ''<class 'str'>''"
| "type_name (PBytes _) = ''<class 'bytes'>''"
| "type_name (PInt _) = ''<class 'int'>''"
| "type_name (PBool _) = ''<class 'bool'>''"
| "type_name PNone = ''<class 'NoneType'>''"

abbreviation newline :: char where "newline \<equiv> CHR 0x0A"
abbreviation tab :: char where "tab \<equiv> CHR 0x09"

text \<open>
  \<open>str.strip()\<close> with no argument removes the characters for which \<open>str.isspace\<close> holds:
  below 256 these are 0x09 to 0x0D, 0x1C to 0x1F, the space, 0x85 and 0xA0.
\<close>

definition isspace :: "char \<Rightarrow> bool" where
  "isspace c = (c \<in> set [CHR 0x09, CHR 0x0A, CHR 0x0B, CHR 0x0C, CHR 0x0D,
                              CHR 0x1C, CHR 0x1D, CHR 0x1E, CHR 0x1F, CHR '' '',
                              CHR 0x85, CHR 0xA0])"

definition strip :: "string \<Rightarrow> string" where
  "strip s = rev (dropWhile isspace (rev (dropWhile isspace s)))"

text \<open>
  \<open>s.split(c)\<close> for a one-character separator. The result is never the empty list, so
  the first case of the \<open>case\<close> below does not occur.
\<close>

fun split :: "char \<Rightarrow> string \<Rightarrow> string list" where
  "split c [] = [[]]"
| "split c (x # xs) =
     (case split c xs of
        [] \<Rightarrow> [[x]]
      | p # ps \<Rightarrow> if x = c then [] # p # ps else (x # p) # ps)"

text \<open>\<open>sep.join(parts)\<close>.\<close>

fun join :: "string \<Rightarrow> string list \<Rightarrow> string" where
  "join sep [] = []"
| "join sep [p] = p"
| "join sep (p # q # ps) = p @ sep @ join sep (q # ps)"

text \<open>\<open>os.path.basename\<close> of \<open>posixpath\<close>: what follows the last slash.\<close>

definition basename :: "string \<Rightarrow> string" where
  "basename p = rev (takeWhile (\<lambda>c. c \<noteq> CHR ''/'') (rev p))"


section \<open>The regular expressions of module \<open>re\<close>\<close>

text \<open>
  The script's patterns use literals, character classes, sequence, alternation, greedy
  repetition, capturing groups and the anchors \<open>^\<close> and \<open>$\<close>. The matcher below is the
  backtracking matcher of \<open>re\<close> on this fragment, written as a list of successes: the
  states a pattern can end in from a given state, in the order in which backtracking
  tries them (the greedy choice first, the left alternative first).

  A state is a position in the subject (the text before it and the text from it on)
  together with the groups captured so far.
\<close>

type_synonym captures = "(nat \<times> string) list"
type_synonym mstate = "string \<times> string \<times> captures"

datatype regex =
    Lit string
  | Cls "(char \<times> char) list"
  | Seq regex regex
  | Alt regex regex
  | Star regex
  | Group nat regex
  | Bol
  | Eol

text \<open>A class \<open>[a-zA-Z0-9/_-]\<close> is a list of inclusive ranges of code points.\<close>

definition in_cls :: "char \<Rightarrow> (char \<times> char) list \<Rightarrow> bool" where
  "in_cls c rs =
     list_ex (\<lambda>(a, b). (of_char a :: nat) \<le> of_char c \<and> (of_char c :: nat) \<le> of_char b) rs"

text \<open>
  Greedy repetition: one more iteration (which has to consume something) is tried
  before stopping. An iteration shortens the rest, so the length of the rest bounds the
  number of iterations.
\<close>

fun star_iter :: "nat \<Rightarrow> (mstate \<Rightarrow> mstate list) \<Rightarrow> mstate \<Rightarrow> mstate list" where
  "star_iter 0 f s = [s]"
| "star_iter (Suc n) f s =
     concat (map (star_iter n f)
       (filter (\<lambda>s'. length (fst (snd s')) < length (fst (snd s))) (f s))) @ [s]"

text \<open>
  \<open>ml\<close> is the flag \<open>re.MULTILINE\<close>. Without it \<open>^\<close> matches at the start of the subject
  and \<open>$\<close> at its end and before a newline that ends it; with it \<open>^\<close> also matches after
  every newline and \<open>$\<close> before every newline.
\<close>

fun rmatch :: "bool \<Rightarrow> regex \<Rightarrow> mstate \<Rightarrow> mstate list" where
  "rmatch ml (Lit w) (pre, rest, g) =
     (if take (length w) rest = w then [(pre @ w, drop (length w) rest, g)] else [])"
| "rmatch ml (Cls rs) (pre, rest, g) =
     (case rest of [] \<Rightarrow> [] | x # xs \<Rightarrow> if in_cls x rs then [(pre @ [x], xs, g)] else [])"
| "rmatch ml (Seq a b) s = concat (map (rmatch ml b) (rmatch ml a s))"
| "rmatch ml (Alt a b) s = rmatch ml a s @ rmatch ml b s"
| "rmatch ml (Star a) s = star_iter (length (fst (snd s))) (rmatch ml a) s"
| "rmatch ml (Group n a) (pre, rest, g) =
     map (\<lambda>(pre', rest', g'). (pre', rest', (n, drop (length pre) pre') # g'))
       (rmatch ml a (pre, rest, g))"
| "rmatch ml Bol (pre, rest, g) =
     (if pre = [] then [(pre, rest, g)]
      else if ml \<and> last pre = newline then [(pre, rest, g)] else [])"
| "rmatch ml Eol (pre, rest, g) =
     (if rest = [] \<or> rest = [newline] then [(pre, rest, g)]
      else if ml \<and> hd rest = newline then [(pre, rest, g)] else [])"

text \<open>\<open>r+\<close>, a sequence \<open>r1 r2 ... rn\<close> and an alternation \<open>r1|r2|...|rn\<close>.\<close>

definition Plus :: "regex \<Rightarrow> regex" where
  "Plus r = Seq r (Star r)"

fun seqs :: "regex list \<Rightarrow> regex" where
  "seqs [] = Lit []"
| "seqs [r] = r"
| "seqs (r # q # rs) = Seq r (seqs (q # rs))"

fun alts :: "regex list \<Rightarrow> regex" where
  "alts [] = Lit []"
| "alts [r] = r"
| "alts (r # q # rs) = Alt r (alts (q # rs))"

text \<open>
  One attempt at a position: the first success of the backtracking. After an empty
  match the next attempt at the same position must consume something (\<open>adv\<close>).
\<close>

definition match_at :: "bool \<Rightarrow> regex \<Rightarrow> bool \<Rightarrow> string \<times> string \<Rightarrow> mstate option" where
  "match_at ml r adv p =
     find (\<lambda>s'. if adv then length (fst (snd s')) < length (snd p) else True)
       (rmatch ml r (fst p, snd p, []))"

text \<open>A match only moves forward: what it ends in is a later position of the same subject.\<close>

definition reaches :: "mstate \<Rightarrow> mstate \<Rightarrow> bool" where
  "reaches s s' = (\<exists>w. fst s' = fst s @ w \<and> fst (snd s) = w @ fst (snd s'))"

lemma reaches_refl: "reaches s s"
  by (simp add: reaches_def)

lemma reaches_trans: "reaches s t \<Longrightarrow> reaches t u \<Longrightarrow> reaches s u"
  by (auto simp: reaches_def)

lemma reaches_length: "reaches s s' \<Longrightarrow> length (fst (snd s')) \<le> length (fst (snd s))"
  by (auto simp: reaches_def)

lemma star_iter_reaches:
  assumes f: "\<And>s s'. s' \<in> set (f s) \<Longrightarrow> reaches s s'"
  shows "s' \<in> set (star_iter n f s) \<Longrightarrow> reaches s s'"
proof (induction n arbitrary: s)
  case 0
  then show ?case by (simp add: reaches_refl)
next
  case (Suc n)
  then show ?case
    by (auto simp: reaches_refl intro: reaches_trans f)
qed

lemma rmatch_reaches: "s' \<in> set (rmatch ml r s) \<Longrightarrow> reaches s s'"
proof (induction r arbitrary: s s')
  case (Lit w)
  then show ?case
    by (cases s) (auto simp: reaches_def split: if_splits, metis append_take_drop_id)
next
  case (Cls rs)
  then show ?case
    by (cases s) (auto simp: reaches_def split: if_splits list.splits)
next
  case (Seq a b)
  from Seq.prems obtain t where "t \<in> set (rmatch ml a s)" "s' \<in> set (rmatch ml b t)"
    by auto
  then show ?case
    by (blast intro: reaches_trans Seq.IH)
next
  case (Alt a b)
  from Alt.prems have "s' \<in> set (rmatch ml a s) \<or> s' \<in> set (rmatch ml b s)"
    by simp
  then show ?case
    using Alt.IH by blast
next
  case (Star a)
  from Star.prems have "s' \<in> set (star_iter (length (fst (snd s))) (rmatch ml a) s)"
    by simp
  then show ?case
    using Star.IH by (rule star_iter_reaches[rotated])
next
  case (Group n a)
  obtain pre rest g where s: "s = (pre, rest, g)"
    by (cases s)
  from Group.prems s obtain t where t: "t \<in> set (rmatch ml a s)"
    and s': "fst s' = fst t" "fst (snd s') = fst (snd t)"
    by auto
  from Group.IH[OF t] s' show ?case
    by (simp add: reaches_def)
next
  case Bol
  then show ?case by (cases s) (auto simp: reaches_refl split: if_splits)
next
  case Eol
  then show ?case by (cases s) (auto simp: reaches_refl split: if_splits)
qed

lemma match_at_reaches:
  "match_at ml r adv (pre, rest) = Some s' \<Longrightarrow> reaches (pre, rest, []) s'"
  by (auto simp: match_at_def find_Some_iff intro!: rmatch_reaches nth_mem)

text \<open>
  The scan that \<open>findall\<close> and \<open>sub\<close> share: from left to right, the leftmost match at
  or after the position, then on from the end of that match. It yields the characters
  no match covers (\<open>Inl\<close>) and the matches (\<open>Inr\<close>), in order.
\<close>

function scan :: "bool \<Rightarrow> regex \<Rightarrow> bool \<Rightarrow> string \<times> string \<Rightarrow> (char + mstate) list" where
  "scan ml r adv (pre, rest) =
     (case match_at ml r adv (pre, rest) of
        Some s' \<Rightarrow>
          Inr s' # scan ml r (length (fst (snd s')) = length rest) (fst s', fst (snd s'))
      | None \<Rightarrow>
          (case rest of
             [] \<Rightarrow> []
           | x # xs \<Rightarrow> Inl x # scan ml r False (pre @ [x], xs)))"
  by pat_completeness auto
termination scan
proof (relation "measure (\<lambda>(ml, r, adv, pre, rest). 2 * length rest + (if adv then 0 else 1))")
  show "wf (measure (\<lambda>(ml, r, adv, pre, rest). 2 * length rest + (if adv then 0 else 1)))"
    by simp
next
  fix ml r adv pre rest s'
  assume m: "match_at ml r adv (pre, rest) = Some s'"
  have le: "length (fst (snd s')) \<le> length rest"
    using match_at_reaches[OF m] reaches_length by fastforce
  have "adv \<Longrightarrow> length (fst (snd s')) < length rest"
    using m by (auto simp: match_at_def find_Some_iff split: if_splits)
  with le show "((ml, r, length (fst (snd s')) = length rest, fst s', fst (snd s')),
                 (ml, r, adv, pre, rest))
        \<in> measure (\<lambda>(ml, r, adv, pre, rest). 2 * length rest + (if adv then 0 else 1))"
    by (cases adv) auto
next
  fix ml r adv pre rest x xs
  assume "rest = x # xs"
  then show "((ml, r, False, pre @ [x], xs), (ml, r, adv, pre, rest))
        \<in> measure (\<lambda>(ml, r, adv, pre, rest). 2 * length rest + (if adv then 0 else 1))"
    by auto
qed

definition group_text :: "captures \<Rightarrow> nat \<Rightarrow> string" where
  "group_text g n = (case map_of g n of Some t \<Rightarrow> t | None \<Rightarrow> [])"

text \<open>
  \<open>re.compile(r, flags).findall(s)\<close> for a pattern with \<open>n > 1\<close> groups: the tuples of
  the groups of every match. \<open>re.sub(r, repl, s)\<close> for a replacement without
  backreferences.
\<close>

definition re_findall :: "bool \<Rightarrow> regex \<Rightarrow> nat \<Rightarrow> string \<Rightarrow> string list list" where
  "re_findall ml r n s =
     map (\<lambda>(pre, rest, g). map (group_text g) [1..<Suc n])
       (concat (map (case_sum (\<lambda>c. []) (\<lambda>m. [m])) (scan ml r False ([], s))))"

definition re_sub :: "bool \<Rightarrow> regex \<Rightarrow> string \<Rightarrow> string \<Rightarrow> string" where
  "re_sub ml r repl s =
     concat (map (case_sum (\<lambda>c. [c]) (\<lambda>m. repl)) (scan ml r False ([], s)))"


section \<open>The environment of the script\<close>

text \<open>
  What the script reads from outside: the file system (through \<open>os.path.realpath\<close>,
  \<open>os.path.exists\<close> and \<open>open\<close>), the command \<open>zpool status -P pool\<close>, the order in
  which a \<open>set\<close> of strings is iterated, and the number of nested calls the interpreter
  allows. The file system does not change while the script runs, and the command exists
  and ends.
\<close>

text \<open>
  What \<open>open(path, 'r')\<close> and \<open>read(1)\<close> give for a path that exists: the text of the file,
  or the exception of \<open>open\<close> for a directory (\<open>IsADirectoryError\<close>) and for a file that may
  not be read (\<open>PermissionError\<close>), or any other \<open>OSError\<close> of \<open>open\<close> or \<open>read\<close> (an
  input/output error for one), or the \<open>UnicodeDecodeError\<close> of \<open>read\<close> for a file whose first
  block of bytes is no text in the encoding of the locale.
\<close>

datatype fs_entry = Text string | Directory | Denied | Faulty | Undecodable

record proc =
  runtime :: int
  returncode :: int
  stdout :: "string option"

text \<open>
  \<open>runtime\<close>: the seconds the command takes; \<open>stdout\<close>: its output decoded as UTF-8,
  \<open>None\<close> when the bytes are no valid UTF-8.
\<close>

record env =
  realpath :: "string \<Rightarrow> string"
  file_text :: "string \<Rightarrow> fs_entry option"
  zpool :: "string \<Rightarrow> proc"
  set_order :: "string list \<Rightarrow> string list"
  recursion_limit :: nat

text \<open>
  \<open>file_text env p\<close> is \<open>None\<close> when \<open>os.path.exists(p)\<close> is false, and otherwise what
  opening and reading the path as text gives. \<open>set_order env xs\<close> is \<open>list(set(xs))\<close>: the elements of \<open>xs\<close>, each once,
  in the order of the hash table.
\<close>

definition set_order_ok :: "env \<Rightarrow> bool" where
  "set_order_ok env =
     (\<forall>xs. distinct (set_order env xs) \<and> set (set_order env xs) = set xs)"

text \<open>
  Every \<open>raise\<close> of the script raises \<open>Exception\<close> with a message; one constructor per
  message, named as the specification names the failure:
  \<^item> \<open>DeviceMetadataNotFound f\<close>: \<open>Could not find file f!\<close>
  \<^item> \<open>UnrecognizedDeviceFlag f\<close>: \<open>Unknown value in f!\<close>
  \<^item> \<open>InvalidArgument t\<close>: \<open>Cannot get blockdevices for pool of type "t"\<close>
  \<^item> \<open>InvalidPool t\<close>: \<open>Cannot check pool of type "t"\<close>
  \<^item> \<open>Timeout t pool\<close>: \<open>zpool status command did not return in time (ts) for pool "pool"\<close>
  \<^item> \<open>PoolQueryFailed pool\<close>: \<open>zpool status command did not return successfully ...\<close>

  \<open>UnicodeDecodeError\<close> is raised by \<open>decode\<close> and by \<open>read\<close>, \<open>IsADirectoryError\<close>,
  \<open>PermissionError\<close> and the other \<open>OSError\<close>s by \<open>open\<close> and \<open>read\<close> (with the path),
  \<open>RecursionError\<close> by the interpreter when the calls nest deeper than it allows.
\<close>

datatype error =
    DeviceMetadataNotFound string
  | UnrecognizedDeviceFlag string
  | InvalidArgument string
  | InvalidPool string
  | Timeout int string
  | PoolQueryFailed string
  | UnicodeDecodeError
  | IsADirectoryError string
  | PermissionError string
  | OSError string
  | RecursionError


section \<open>The script\<close>

subsection \<open>\<open>base_disk_for_block_device\<close>\<close>

text \<open>
  Lines 43 to 59: \<open>os.path.realpath\<close>, then \<open>re.sub('[0-9]+$', '', partition)\<close>. The
  parameter \<open>partition\<close> is called \<open>path\<close> here.
\<close>

definition digit :: regex where
  "digit = Cls [(CHR ''0'', CHR ''9'')]"

definition base_disk_for_block_device :: "env \<Rightarrow> string \<Rightarrow> string" where
  "base_disk_for_block_device env path =
     (let path = realpath env path;
          path = re_sub False (Seq (Plus digit) Eol) [] path
      in path)"

subsection \<open>\<open>is_rotational\<close>\<close>

text \<open>
  Lines 11 to 41. The function calls itself (line 30); the first argument is the number
  of nested calls the interpreter still allows, and \<open>RecursionError\<close> is what the
  interpreter raises when there is none left. \<open>open\<close> (line 34) and \<open>read\<close> (line 35) may
  raise for a path that exists; otherwise \<open>f_obj.read(1)\<close> is the first character of the
  file, or the empty string for an empty file.
\<close>

fun is_rotational_depth :: "nat \<Rightarrow> env \<Rightarrow> string \<Rightarrow> error + bool" where
  "is_rotational_depth 0 env block_device = Inl RecursionError"
| "is_rotational_depth (Suc n) env block_device =
     (let base_name = basename block_device;
          rotational_file = ''/sys/block/'' @ base_name @ ''/queue/rotational''
      in case file_text env rotational_file of
           None \<Rightarrow>
             (let disk = base_disk_for_block_device env block_device
              in if disk \<noteq> block_device then is_rotational_depth n env disk
                 else Inl (DeviceMetadataNotFound rotational_file))
         | Some Directory \<Rightarrow> Inl (IsADirectoryError rotational_file)
         | Some Denied \<Rightarrow> Inl (PermissionError rotational_file)
         | Some Faulty \<Rightarrow> Inl (OSError rotational_file)
         | Some Undecodable \<Rightarrow> Inl UnicodeDecodeError
         | Some (Text contents) \<Rightarrow>
             (let content = take 1 contents
              in if content = ''1'' then Inr True
                 else if content = ''0'' then Inr False
                 else Inl (UnrecognizedDeviceFlag rotational_file)))"

definition is_rotational :: "env \<Rightarrow> string \<Rightarrow> error + bool" where
  "is_rotational env block_device = is_rotational_depth (recursion_limit env) env block_device"

text \<open>The metadata-flag file that \<open>is_rotational\<close> looks for, as a function of its argument.\<close>

definition rotational_file_of :: "string \<Rightarrow> string" where
  "rotational_file_of block_device = ''/sys/block/'' @ basename block_device @ ''/queue/rotational''"

subsection \<open>\<open>zpool_status\<close>\<close>

text \<open>
  Lines 100 to 135. \<open>communicate(timeout)\<close> raises \<open>TimeoutExpired\<close> when the command takes
  longer than a positive \<open>timeout\<close>; the default \<open>-1\<close> waits for its end.
\<close>

definition zpool_status :: "env \<Rightarrow> pyval \<Rightarrow> int \<Rightarrow> error + string option" where
  "zpool_status env pool timeout =
     (case pool of
        PStr name \<Rightarrow>
          (let p = zpool env name
           in if timeout > 0 \<and> runtime p > timeout then Inl (Timeout timeout name)
              else if returncode p \<noteq> 0 then Inl (PoolQueryFailed name)
              else (case stdout p of
                      None \<Rightarrow> Inl UnicodeDecodeError
                    | Some contents \<Rightarrow> Inr (Some contents)))
      | _ \<Rightarrow> Inr None)"

subsection \<open>\<open>block_devices_for_pool\<close>\<close>

text \<open>
  Lines 61 to 98. The pattern of line 92 is
  \<open>^(/dev/[a-zA-Z0-9/_-]*) (DEGRADED|FAULTED|OFFLINE|ONLINE|REMOVED|UNAVAIL) ([0-9][0-9]*) ([0-9][0-9]*) ([0-9][0-9]*)$\<close>,
  compiled with \<open>re.MULTILINE\<close>; its groups are numbered from 1.
\<close>

definition disk_re :: regex where
  "disk_re = Group 1 (Seq (Lit ''/dev/'')
     (Star (Cls [(CHR ''a'', CHR ''z''), (CHR ''A'', CHR ''Z''), (CHR ''0'', CHR ''9''),
                 (CHR ''/'', CHR ''/''), (CHR ''_'', CHR ''_''), (CHR ''-'', CHR ''-'')])))"

definition states :: "string list" where
  "states = [''DEGRADED'', ''FAULTED'', ''OFFLINE'', ''ONLINE'', ''REMOVED'', ''UNAVAIL'']"

definition states_re :: regex where
  "states_re = Group 2 (alts (map Lit states))"

definition num_re :: "nat \<Rightarrow> regex" where
  "num_re n = Group n (Seq digit (Star digit))"

definition line_re :: regex where
  "line_re = seqs [Bol, disk_re, Lit '' '', states_re, Lit '' '', num_re 3, Lit '' '',
                   num_re 4, Lit '' '', num_re 5, Eol]"

text \<open>Lines 77 to 84: the three normalisations of the status text.\<close>

definition normalize_status :: "string \<Rightarrow> string" where
  "normalize_status status_str =
     (let status_str = re_sub False (Plus (Lit [tab])) '' '' status_str;
          status_str = re_sub False (Plus (Lit '' '')) '' '' status_str;
          status_str = join [newline] (map strip (split newline status_str))
      in status_str)"

text \<open>Lines 86 to 98: the disk lines of the normalised text.\<close>

definition extract_devices :: "string \<Rightarrow> string list" where
  "extract_devices status_str =
     (let matches = re_findall True line_re 5 status_str;
          devices = map (\<lambda>tup. tup ! 0) matches
      in devices)"

definition block_devices_for_pool :: "env \<Rightarrow> pyval \<Rightarrow> error + string list" where
  "block_devices_for_pool env pool =
     (if \<not> isinstance_str pool then Inl (InvalidArgument (type_name pool))
      else case zpool_status env pool (- 1) of
             Inl e \<Rightarrow> Inl e
           | Inr None \<Rightarrow> Inr []
           | Inr (Some status_str) \<Rightarrow> Inr (extract_devices (normalize_status status_str)))"

subsection \<open>\<open>zpool_is_pure_solid_state\<close>\<close>

text \<open>
  Lines 137 to 161. A list comprehension whose body may raise stops at the first
  exception.
\<close>

fun comprehension :: "('a \<Rightarrow> error + 'b) \<Rightarrow> 'a list \<Rightarrow> error + 'b list" where
  "comprehension f [] = Inr []"
| "comprehension f (x # xs) =
     (case f x of
        Inl e \<Rightarrow> Inl e
      | Inr y \<Rightarrow> (case comprehension f xs of Inl e \<Rightarrow> Inl e | Inr ys \<Rightarrow> Inr (y # ys)))"

definition zpool_is_pure_solid_state :: "env \<Rightarrow> pyval \<Rightarrow> error + bool" where
  "zpool_is_pure_solid_state env pool =
     (if \<not> isinstance_str pool then Inl (InvalidPool (type_name pool))
      else case block_devices_for_pool env pool of
             Inl e \<Rightarrow> Inl e
           | Inr disks \<Rightarrow>
               (let disks = map (base_disk_for_block_device env) disks;
                    disks = set_order env disks
                in case comprehension (is_rotational env) disks of
                     Inl e \<Rightarrow> Inl e
                   | Inr rotationals \<Rightarrow> Inr (\<not> (True \<in> set rotationals))))"


section \<open>Example environments\<close>

text \<open>
  A pool \<open>tank\<close> of three partitions on the two solid-state disks \<open>sda\<close> and \<open>sdb\<close>, a
  pool \<open>empty\<close> whose status lists nothing, and no other pool. No path is a symbolic
  link.
\<close>

definition example_status :: string where
  "example_status =
     ''config:'' @ [newline] @
     [tab] @ ''tank'' @ [tab] @ ''ONLINE 0 0 0'' @ [newline] @
     [tab] @ ''  /dev/sda1  ONLINE  0 0 0'' @ [newline] @
     [tab] @ ''  /dev/sdb1  ONLINE  0 0 0'' @ [newline] @
     [tab] @ ''  /dev/sda2  ONLINE  0 0 0'' @ [newline]"

definition example_env :: env where
  "example_env = \<lparr>
     realpath = (\<lambda>p. p),
     file_text = (\<lambda>p. if p = ''/sys/block/sda/queue/rotational''
                          \<or> p = ''/sys/block/sdb/queue/rotational''
                       then Some (Text (''0'' @ [newline])) else None),
     zpool = (\<lambda>name.
        if name = ''tank'' then \<lparr>runtime = 1, returncode = 0, stdout = Some example_status\<rparr>
        else if name = ''empty'' then \<lparr>runtime = 1, returncode = 0, stdout = Some []\<rparr>
        else \<lparr>runtime = 1, returncode = 1, stdout = Some []\<rparr>),
     set_order = remdups,
     recursion_limit = 1000 \<rparr>"

text \<open>
  \<open>chain_env\<close>: \<open>/dev/vol\<close> is a symbolic link to the partition \<open>/dev/sda1\<close> of a
  solid-state disk. \<open>cycle_env\<close>: \<open>/dev/p\<close> is a symbolic link to \<open>/dev/q1\<close> and \<open>/dev/q\<close>
  one to \<open>/dev/p1\<close>; no disk has a flag file.
\<close>

definition chain_env :: env where
  "chain_env = \<lparr>
     realpath = (\<lambda>p. if p = ''/dev/vol'' then ''/dev/sda1'' else p),
     file_text = (\<lambda>p. if p = ''/sys/block/sda/queue/rotational''
                       then Some (Text (''0'' @ [newline])) else None),
     zpool = (\<lambda>name. \<lparr>runtime = 1, returncode = 1, stdout = Some []\<rparr>),
     set_order = remdups,
     recursion_limit = 1000 \<rparr>"

definition cycle_env :: env where
  "cycle_env = \<lparr>
     realpath = (\<lambda>p. if p = ''/dev/p'' then ''/dev/q1''
                      else if p = ''/dev/q'' then ''/dev/p1'' else p),
     file_text = (\<lambda>p. None),
     zpool = (\<lambda>name. \<lparr>runtime = 1, returncode = 1, stdout = Some []\<rparr>),
     set_order = remdups,
     recursion_limit = 1000 \<rparr>"

text \<open>
  \<open>fd_env\<close>: \<open>/dev/fd\<close> is a symbolic link to the directory of the file descriptors of
  process 4242 (as it is on Linux), beside the floppy disk \<open>/dev/fd0\<close>.
\<close>

definition fd_env :: env where
  "fd_env = \<lparr>
     realpath = (\<lambda>p. if p = ''/dev/fd'' then ''/proc/4242/fd'' else p),
     file_text = (\<lambda>p. None),
     zpool = (\<lambda>name. \<lparr>runtime = 1, returncode = 1, stdout = Some []\<rparr>),
     set_order = remdups,
     recursion_limit = 1000 \<rparr>"

text \<open>
  \<open>shuffled_env\<close>: the pool of \<open>example_env\<close> with its partitions listed in another order
  and one of them twice, and another order of iteration of a set. \<open>mixed_env\<close>: the disk
  \<open>sda\<close> is rotational.
\<close>

definition shuffled_status :: string where
  "shuffled_status =
     [tab] @ ''/dev/sdb1 ONLINE 0 0 0'' @ [newline] @
     [tab] @ ''/dev/sda2 ONLINE 0 0 0'' @ [newline] @
     [tab] @ ''/dev/sda1 ONLINE 0 0 0'' @ [newline] @
     [tab] @ ''/dev/sdb1 ONLINE 0 0 0'' @ [newline]"

definition shuffled_env :: env where
  "shuffled_env = example_env \<lparr>
     zpool := (\<lambda>name. \<lparr>runtime = 1, returncode = 0, stdout = Some shuffled_status\<rparr>),
     set_order := (\<lambda>xs. rev (remdups xs)) \<rparr>"

definition mixed_env :: env where
  "mixed_env = example_env \<lparr>
     file_text := (\<lambda>p. if p = ''/sys/block/sda/queue/rotational''
                       then Some (Text (''1'' @ [newline]))
                       else file_text example_env p) \<rparr>"

text \<open>
  An environment in which the flag paths of three disks exist and cannot be read as text:
  that of \<open>sda\<close> is a directory, that of \<open>sdb\<close> holds the bytes \<open>31 ff\<close>, which are no UTF-8
  text, and that of \<open>sdc\<close> may not be read by the user.
\<close>

definition unreadable_env :: env where
  "unreadable_env = example_env \<lparr>
     file_text := (\<lambda>p. if p = ''/sys/block/sda/queue/rotational'' then Some Directory
                       else if p = ''/sys/block/sdb/queue/rotational'' then Some Undecodable
                       else if p = ''/sys/block/sdc/queue/rotational'' then Some Denied
                       else None) \<rparr>"


section \<open>The notions of the specification\<close>

text \<open>
  The words in which the specification states its claims, defined on their own: the
  theorems below relate them to what the script computes.
\<close>

text \<open>The base disks of a device list, as a set.\<close>

definition base_disks :: "env \<Rightarrow> string list \<Rightarrow> string set" where
  "base_disks env devices = base_disk_for_block_device env ` set devices"

text \<open>
  A decimal digit, and a string without the maximal run of decimal digits that ends it.
\<close>

definition is_digit :: "char \<Rightarrow> bool" where
  "is_digit c \<longleftrightarrow> c \<in> set ''0123456789''"

definition rstrip_digits :: "string \<Rightarrow> string" where
  "rstrip_digits s = rev (dropWhile is_digit (rev s))"

text \<open>
  The grammar of a device line in the words of the specification: a device path, a
  state and three numbers, separated by single spaces. A device path begins with
  \<open>/dev/\<close> and contains only letters (\<open>a\<close> to \<open>z\<close> and \<open>A\<close> to \<open>Z\<close>), digits, \<open>/\<close>, \<open>_\<close>
  and \<open>-\<close>; a number is a non-empty sequence of decimal digits.
\<close>

definition is_letter :: "char \<Rightarrow> bool" where
  "is_letter c \<longleftrightarrow> c \<in> set ''abcdefghijklmnopqrstuvwxyzABCDEFGHIJKLMNOPQRSTUVWXYZ''"

definition path_char :: "char \<Rightarrow> bool" where
  "path_char c \<longleftrightarrow> is_letter c \<or> is_digit c \<or> c \<in> set ''/_-''"

definition number :: "string \<Rightarrow> bool" where
  "number n \<longleftrightarrow> n \<noteq> [] \<and> (\<forall>x \<in> set n. is_digit x)"

definition device_path :: "string \<Rightarrow> bool" where
  "device_path d \<longleftrightarrow> take 5 d = ''/dev/'' \<and> (\<forall>x \<in> set d. path_char x)"

definition device_line :: "string \<Rightarrow> bool" where
  "device_line l \<longleftrightarrow>
     (\<exists>d st n1 n2 n3.
        l = d @ '' '' @ st @ '' '' @ n1 @ '' '' @ n2 @ '' '' @ n3
        \<and> device_path d \<and> st \<in> set states \<and> number n1 \<and> number n2 \<and> number n3)"

text \<open>
  The normalisation in the words of the specification: every run of the character \<open>c\<close>
  becomes one space. A text is single-spaced when no two spaces are adjacent in it.
\<close>

function collapse_runs :: "char \<Rightarrow> string \<Rightarrow> string" where
  "collapse_runs c [] = []"
| "collapse_runs c (x # xs) =
     (if x = c then CHR '' '' # collapse_runs c (dropWhile (\<lambda>y. y = c) xs)
      else x # collapse_runs c xs)"
  by pat_completeness auto
termination collapse_runs
  by (relation "measure (\<lambda>(c, s). length s)") (auto simp: length_dropWhile_le less_Suc_eq_le)

fun single_spaced :: "string \<Rightarrow> bool" where
  "single_spaced (x # y # r) = ((x \<noteq> CHR '' '' \<or> y \<noteq> CHR '' '') \<and> single_spaced (y # r))"
| "single_spaced _ = True"

text \<open>A text that does not begin with a space.\<close>

definition no_space_first :: "string \<Rightarrow> bool" where
  "no_space_first s \<longleftrightarrow> s = [] \<or> hd s \<noteq> CHR '' ''"

text \<open>The first token of a line: the text before its first space.\<close>

definition first_token :: "string \<Rightarrow> string" where
  "first_token l = takeWhile (\<lambda>c. c \<noteq> CHR '' '') l"

text \<open>The outcome of the read step (lines 34 to 41) for a flag file that exists.\<close>

definition read_flag :: "string \<Rightarrow> fs_entry \<Rightarrow> error + bool" where
  "read_flag rotational_file flag =
     (case flag of
        Text contents \<Rightarrow>
          if take 1 contents = ''1'' then Inr True
          else if take 1 contents = ''0'' then Inr False
          else Inl (UnrecognizedDeviceFlag rotational_file)
      | Directory \<Rightarrow> Inl (IsADirectoryError rotational_file)
      | Denied \<Rightarrow> Inl (PermissionError rotational_file)
      | Faulty \<Rightarrow> Inl (OSError rotational_file)
      | Undecodable \<Rightarrow> Inl UnicodeDecodeError)"

section \<open>Evaluating the script in the example environment\<close>

lemma read_flag_returns: "read_flag rotational_file flag \<noteq> Inl RecursionError"
  by (simp add: read_flag_def split: fs_entry.split)

lemma is_rotational_depth_pos:
  "0 < n \<Longrightarrow> is_rotational_depth n env block_device =
     (case file_text env (rotational_file_of block_device) of
        None \<Rightarrow>
          if base_disk_for_block_device env block_device \<noteq> block_device
          then is_rotational_depth (n - 1) env (base_disk_for_block_device env block_device)
          else Inl (DeviceMetadataNotFound (rotational_file_of block_device))
      | Some flag \<Rightarrow> read_flag (rotational_file_of block_device) flag)"
  by (cases n)
     (auto simp: Let_def rotational_file_of_def read_flag_def split: option.split fs_entry.split)

declare is_rotational_depth.simps(2) [simp del]

lemma example_files:
  "file_text example_env (rotational_file_of ''/dev/sda1'') = None"
  "file_text example_env (rotational_file_of ''/dev/sda'') = Some (Text (''0'' @ [newline]))"
  "file_text example_env (rotational_file_of ''/dev/sdb'') = Some (Text (''0'' @ [newline]))"
  by (simp_all add: example_env_def rotational_file_of_def basename_def)

lemma example_limit: "recursion_limit example_env = 1000"
  by (simp add: example_env_def)

lemma example_normalize:
  "extract_devices (normalize_status example_status) = [''/dev/sda1'', ''/dev/sdb1'', ''/dev/sda2'']"
  by code_simp

lemma example_devices:
  "block_devices_for_pool example_env (PStr ''tank'')
     = Inr [''/dev/sda1'', ''/dev/sdb1'', ''/dev/sda2'']"
  by (simp add: block_devices_for_pool_def zpool_status_def example_env_def example_normalize)

lemma example_realpath: "realpath example_env p = p"
  by (simp add: example_env_def)

lemma strip_digits_examples:
  "re_sub False (Seq (Plus digit) Eol) [] ''/dev/sda1'' = ''/dev/sda''"
  "re_sub False (Seq (Plus digit) Eol) [] ''/dev/sda2'' = ''/dev/sda''"
  "re_sub False (Seq (Plus digit) Eol) [] ''/dev/sdb1'' = ''/dev/sdb''"
  "re_sub False (Seq (Plus digit) Eol) [] ''/dev/sda'' = ''/dev/sda''"
  "re_sub False (Seq (Plus digit) Eol) [] ''/dev/sdb'' = ''/dev/sdb''"
  by code_simp+

lemma example_base_disks:
  "map (base_disk_for_block_device example_env) [''/dev/sda1'', ''/dev/sdb1'', ''/dev/sda2'']
     = [''/dev/sda'', ''/dev/sdb'', ''/dev/sda'']"
  by (simp add: base_disk_for_block_device_def example_realpath strip_digits_examples)

lemma example_set_order: "set_order_ok example_env"
  by (simp add: set_order_ok_def example_env_def)

lemma example_rot:
  "is_rotational example_env ''/dev/sda'' = Inr False"
  "is_rotational example_env ''/dev/sdb'' = Inr False"
  by (simp_all add: is_rotational_def is_rotational_depth_pos read_flag_def example_files
        example_limit)

lemma example_empty_devices: "block_devices_for_pool example_env (PStr ''empty'') = Inr []"
proof -
  have "extract_devices (normalize_status []) = []"
    by code_simp
  then show ?thesis
    by (simp add: block_devices_for_pool_def zpool_status_def example_env_def)
qed

lemma strip_digits_chain:
  "re_sub False (Seq (Plus digit) Eol) [] ''/dev/vol1'' = ''/dev/vol''"
  "re_sub False (Seq (Plus digit) Eol) [] ''/dev/sdc1'' = ''/dev/sdc''"
  "re_sub False (Seq (Plus digit) Eol) [] ''/dev/sdc'' = ''/dev/sdc''"
  "re_sub False (Seq (Plus digit) Eol) [] ''/dev/p1'' = ''/dev/p''"
  "re_sub False (Seq (Plus digit) Eol) [] ''/dev/q1'' = ''/dev/q''"
  by code_simp+

lemma chain_base_disk:
  "base_disk_for_block_device chain_env ''/dev/vol1'' = ''/dev/vol''"
  "base_disk_for_block_device chain_env ''/dev/vol'' = ''/dev/sda''"
  by (simp_all add: base_disk_for_block_device_def chain_env_def strip_digits_chain
        strip_digits_examples)

lemma chain_files:
  "file_text chain_env (rotational_file_of ''/dev/vol1'') = None"
  "file_text chain_env (rotational_file_of ''/dev/vol'') = None"
  "file_text chain_env (rotational_file_of ''/dev/sda'') = Some (Text (''0'' @ [newline]))"
  by (simp_all add: chain_env_def rotational_file_of_def basename_def)

lemma example_base_disk_sda:
  "base_disk_for_block_device example_env ''/dev/sda1'' = ''/dev/sda''"
  "base_disk_for_block_device example_env ''/dev/sda'' = ''/dev/sda''"
  "base_disk_for_block_device example_env ''/dev/sdc1'' = ''/dev/sdc''"
  "base_disk_for_block_device example_env ''/dev/sdc'' = ''/dev/sdc''"
  by (simp_all add: base_disk_for_block_device_def example_realpath strip_digits_examples strip_digits_chain)


section \<open>The matcher on the script's patterns\<close>

subsection \<open>Repetition of a pattern that matches one character\<close>

definition single :: "regex \<Rightarrow> (char \<Rightarrow> bool) \<Rightarrow> bool" where
  "single a P \<longleftrightarrow>
     (\<forall>ml pre rest g. rmatch ml a (pre, rest, g) =
        (case rest of [] \<Rightarrow> [] | x # xs \<Rightarrow> if P x then [(pre @ [x], xs, g)] else []))"

lemma single_Cls: "single (Cls rs) (\<lambda>c. in_cls c rs)"
  by (simp add: single_def)

lemma single_Lit: "single (Lit [c]) (\<lambda>x. x = c)"
  by (auto simp: single_def split: list.split)

lemma star_single_Nil:
  "rmatch ml (Star a) (pre, [], g) = [(pre, [], g)]"
  by simp

lemma star_single_Cons:
  assumes "single a P"
  shows "rmatch ml (Star a) (pre, x # xs, g) =
     (if P x then rmatch ml (Star a) (pre @ [x], xs, g) @ [(pre, x # xs, g)]
      else [(pre, x # xs, g)])"
  using assms by (simp add: single_def)

lemma star_single_hd:
  assumes "single a P"
  shows "\<exists>ts. rmatch ml (Star a) (pre, rest, g)
           = (pre @ takeWhile P rest, dropWhile P rest, g) # ts"
proof (induction rest arbitrary: pre)
  case Nil
  show ?case by simp
next
  case (Cons x xs)
  show ?case
  proof (cases "P x")
    case True
    from Cons[of "pre @ [x]"] obtain ts where
      "rmatch ml (Star a) (pre @ [x], xs, g) = (pre @ x # takeWhile P xs, dropWhile P xs, g) # ts"
      by auto
    with True show ?thesis
      by (simp add: star_single_Cons[OF assms] del: rmatch.simps)
  next
    case False
    then show ?thesis
      by (simp add: star_single_Cons[OF assms] del: rmatch.simps)
  qed
qed

lemma star_single_set:
  assumes "single a P"
  shows "set (rmatch ml (Star a) (pre, rest, g))
           = {(pre @ u, v, g) | u v. rest = u @ v \<and> (\<forall>c \<in> set u. P c)}"
proof (induction rest arbitrary: pre)
  case Nil
  show ?case by auto
next
  case (Cons x xs)
  show ?case (is "?L = ?R")
  proof (cases "P x")
    case True
    have "?L = {(pre @ [x] @ u, v, g) | u v. xs = u @ v \<and> (\<forall>c \<in> set u. P c)} \<union> {(pre, x # xs, g)}"
      using True by (simp add: star_single_Cons[OF assms] Cons del: rmatch.simps)
    also have "\<dots> = ?R"
    proof (intro set_eqI iffI)
      fix s assume "s \<in> {(pre @ [x] @ u, v, g) | u v. xs = u @ v \<and> (\<forall>c \<in> set u. P c)} \<union> {(pre, x # xs, g)}"
      then consider u v where "s = (pre @ [x] @ u, v, g)" "xs = u @ v" "\<forall>c \<in> set u. P c"
        | "s = (pre, x # xs, g)"
        by blast
      then show "s \<in> ?R"
      proof cases
        case 1
        with True have "s = (pre @ (x # u), v, g) \<and> x # xs = (x # u) @ v \<and> (\<forall>c \<in> set (x # u). P c)"
          by simp
        then show ?thesis by blast
      next
        case 2
        then have "s = (pre @ [], x # xs, g) \<and> x # xs = [] @ (x # xs) \<and> (\<forall>c \<in> set []. P c)"
          by simp
        then show ?thesis by blast
      qed
    next
      fix s assume "s \<in> ?R"
      then obtain u v where s: "s = (pre @ u, v, g)" "x # xs = u @ v" "\<forall>c \<in> set u. P c"
        by blast
      show "s \<in> {(pre @ [x] @ u, v, g) | u v. xs = u @ v \<and> (\<forall>c \<in> set u. P c)} \<union> {(pre, x # xs, g)}"
      proof (cases u)
        case Nil
        with s show ?thesis by simp
      next
        case (Cons y u')
        with s have "s = (pre @ [x] @ u', v, g) \<and> xs = u' @ v \<and> (\<forall>c \<in> set u'. P c)"
          by simp
        then show ?thesis by blast
      qed
    qed
    finally show ?thesis .
  next
    case False
    have "?L = {(pre, x # xs, g)}"
      using False by (simp add: star_single_Cons[OF assms] del: rmatch.simps)
    also have "\<dots> = ?R"
    proof (intro set_eqI iffI)
      fix s assume "s \<in> {(pre, x # xs, g)}"
      then have "s = (pre @ [], x # xs, g) \<and> x # xs = [] @ (x # xs) \<and> (\<forall>c \<in> set []. P c)"
        by simp
      then show "s \<in> ?R" by blast
    next
      fix s assume "s \<in> ?R"
      then obtain u v where s: "s = (pre @ u, v, g)" "x # xs = u @ v" "\<forall>c \<in> set u. P c"
        by blast
      with False have "u = []"
        by (cases u) auto
      with s show "s \<in> {(pre, x # xs, g)}"
        by simp
    qed
    finally show ?thesis .
  qed
qed


lemma plus_single:
  assumes "single a P"
  shows "rmatch ml (Plus a) (pre, rest, g) =
     (case rest of [] \<Rightarrow> [] | x # xs \<Rightarrow>
        if P x then rmatch ml (Star a) (pre @ [x], xs, g) else [])"
  using assms by (simp add: Plus_def single_def split: list.split)

lemma plus_single_hd:
  assumes "single a P" and "P x"
  shows "\<exists>ts. rmatch ml (Plus a) (pre, x # xs, g)
           = (pre @ takeWhile P (x # xs), dropWhile P (x # xs), g) # ts"
  using star_single_hd[OF assms(1), of ml "pre @ [x]" xs g] assms(2)
  by (simp add: plus_single[OF assms(1)] del: rmatch.simps)

lemma plus_single_set:
  assumes "single a P"
  shows "set (rmatch ml (Plus a) (pre, rest, g))
           = {(pre @ u, v, g) | u v. rest = u @ v \<and> u \<noteq> [] \<and> (\<forall>c \<in> set u. P c)}"
    (is "?L = ?R")
proof (cases rest)
  case Nil
  then show ?thesis
    by (auto simp: plus_single[OF assms] simp del: rmatch.simps)
next
  case (Cons x xs)
  show ?thesis
  proof (cases "P x")
    case False
    have "u = []" if "x # xs = u @ v" "\<forall>c \<in> set u. P c" for u v
      using that False by (cases u) auto
    then have "?R = {}"
      unfolding Cons by blast
    with False Cons show ?thesis
      by (simp add: plus_single[OF assms] del: rmatch.simps)
  next
    case True
    have "?L = {((pre @ [x]) @ u, v, g) | u v. xs = u @ v \<and> (\<forall>c \<in> set u. P c)}"
      using True Cons
      by (simp only: plus_single[OF assms] star_single_set[OF assms] list.case if_True)
    also have "\<dots> = ?R"
    proof (intro set_eqI iffI)
      fix s assume "s \<in> {((pre @ [x]) @ u, v, g) | u v. xs = u @ v \<and> (\<forall>c \<in> set u. P c)}"
      then obtain u v where "s = ((pre @ [x]) @ u, v, g)" "xs = u @ v" "\<forall>c \<in> set u. P c"
        by blast
      with True Cons
      have "s = (pre @ (x # u), v, g) \<and> rest = (x # u) @ v \<and> x # u \<noteq> []
            \<and> (\<forall>c \<in> set (x # u). P c)"
        by simp
      then show "s \<in> ?R"
        by blast
    next
      fix s assume "s \<in> ?R"
      then obtain u v where s: "s = (pre @ u, v, g)" "rest = u @ v" "u \<noteq> []" "\<forall>c \<in> set u. P c"
        by blast
      then obtain u' where "u = x # u'"
        using Cons by (cases u) auto
      with s Cons have "s = ((pre @ [x]) @ u', v, g) \<and> xs = u' @ v \<and> (\<forall>c \<in> set u'. P c)"
        by simp
      then show "s \<in> {((pre @ [x]) @ u, v, g) | u v. xs = u @ v \<and> (\<forall>c \<in> set u. P c)}"
        by blast
    qed
    finally show ?thesis .
  qed
qed

lemma match_at_False:
  "match_at ml r False (pre, rest) =
     (case rmatch ml r (pre, rest, []) of [] \<Rightarrow> None | s # _ \<Rightarrow> Some s)"
  by (simp add: match_at_def split: list.split)

lemma match_at_unique:
  assumes "set (rmatch ml r (pre, rest, [])) = {s}"
  shows "match_at ml r False (pre, rest) = Some s"
proof -
  from assms obtain t ts where ts: "rmatch ml r (pre, rest, []) = t # ts"
    by (cases "rmatch ml r (pre, rest, [])") auto
  with assms have "t = s"
    by auto
  with ts show ?thesis
    by (simp add: match_at_False)
qed

lemma match_at_none:
  assumes "set (rmatch ml r (pre, rest, [])) = {}"
  shows "match_at ml r adv (pre, rest) = None"
  using assms by (simp add: match_at_def)

subsection \<open>The pattern \<open>[0-9]+$\<close> and \<open>re.sub\<close>\<close>

lemma in_cls_digit: "in_cls c [(CHR ''0'', CHR ''9'')] \<longleftrightarrow> is_digit c"
proof -
  have "(48 \<le> n \<and> n \<le> 57) \<longleftrightarrow> n \<in> {48, 49, 50, 51, 52, 53, 54, 55, 56, 57}" for n :: nat
    by (simp; arith)
  from this[of "of_char c"] show ?thesis
    unfolding in_cls_def is_digit_def
    by (simp add: of_char_eq_iff[where 'a = nat, symmetric] del: of_char_eq_iff)
qed


lemma single_digit: "single digit is_digit"
  using single_Cls[of "[(CHR ''0'', CHR ''9'')]"] by (simp add: digit_def in_cls_digit)

lemma newline_not_digit: "\<not> is_digit newline"
  by (simp add: is_digit_def)

lemma rstrip_digits_Nil: "rstrip_digits [] = []"
  by (simp add: rstrip_digits_def)

lemma rstrip_digits_Cons:
  "rstrip_digits (x # xs) = (if list_all is_digit (x # xs) then [] else x # rstrip_digits xs)"
proof (cases "list_all is_digit xs")
  case True
  then have "dropWhile is_digit (rev xs) = []"
    by (simp add: list_all_iff)
  with True show ?thesis
    by (simp add: rstrip_digits_def dropWhile_append list_all_iff)
next
  case False
  then obtain c where "c \<in> set (rev xs)" "\<not> is_digit c"
    by (auto simp: list_all_iff)
  then have "dropWhile is_digit (rev xs @ [x]) = dropWhile is_digit (rev xs) @ [x]"
    by (rule dropWhile_append1)
  with False show ?thesis
    by (simp add: rstrip_digits_def)
qed

lemma digit_eol_set:
  assumes "newline \<notin> set rest"
  shows "set (rmatch False (Seq (Plus digit) Eol) (pre, rest, []))
           = (if rest \<noteq> [] \<and> list_all is_digit rest then {(pre @ rest, [], [])} else {})"
    (is "?L = ?R")
proof -
  have eol: "set (rmatch False Eol (p, v, g)) = (if v = [] then {(p, v, g)} else {})"
    if "newline \<notin> set v" for p v g
    using that by auto
  have "?L = (\<Union>s \<in> {(pre @ u, v, []) | u v. rest = u @ v \<and> u \<noteq> [] \<and> (\<forall>c \<in> set u. is_digit c)}.
                 set (rmatch False Eol s))"
    by (simp add: plus_single_set[OF single_digit] del: rmatch.simps(1,2,4,5,6,7,8))
  also have "\<dots> = ?R"
  proof (intro set_eqI iffI)
    fix s
    assume "s \<in> (\<Union>s \<in> {(pre @ u, v, []) | u v. rest = u @ v \<and> u \<noteq> [] \<and> (\<forall>c \<in> set u. is_digit c)}.
                 set (rmatch False Eol s))"
    then obtain u v where uv: "rest = u @ v" "u \<noteq> []" "\<forall>c \<in> set u. is_digit c"
      and s: "s \<in> set (rmatch False Eol (pre @ u, v, []))"
      by blast
    from uv(1) assms have "newline \<notin> set v"
      by simp
    from s eol[OF this] have "v = []" "s = (pre @ u, v, [])"
      by (auto split: if_splits)
    with uv show "s \<in> ?R"
      by (simp add: list_all_iff)
  next
    fix s assume "s \<in> ?R"
    then have r: "rest \<noteq> []" "list_all is_digit rest" "s = (pre @ rest, [], [])"
      by (auto split: if_splits)
    then have "(pre @ rest, [], []) \<in> {(pre @ u, v, []) | u v. rest = u @ v \<and> u \<noteq> [] \<and> (\<forall>c \<in> set u. is_digit c)}"
      by (simp add: list_all_iff)
    moreover have "s \<in> set (rmatch False Eol (pre @ rest, [], []))"
      using r by simp
    ultimately show "s \<in> (\<Union>s \<in> {(pre @ u, v, []) | u v. rest = u @ v \<and> u \<noteq> [] \<and> (\<forall>c \<in> set u. is_digit c)}.
                 set (rmatch False Eol s))"
      by blast
  qed
  finally show ?thesis .
qed

lemma digit_eol_match:
  assumes "newline \<notin> set rest"
  shows "match_at False (Seq (Plus digit) Eol) False (pre, rest)
           = (if rest \<noteq> [] \<and> list_all is_digit rest then Some (pre @ rest, [], []) else None)"
proof (cases "rest \<noteq> [] \<and> list_all is_digit rest")
  case True
  with digit_eol_set[OF assms, of pre]
  have "set (rmatch False (Seq (Plus digit) Eol) (pre, rest, [])) = {(pre @ rest, [], [])}"
    by simp
  from match_at_unique[OF this] True show ?thesis
    by simp
next
  case False
  with digit_eol_set[OF assms, of pre]
  have "set (rmatch False (Seq (Plus digit) Eol) (pre, rest, [])) = {}"
    by auto
  from match_at_none[OF this] False show ?thesis
    by auto
qed

lemma scan_Nil_digit_eol: "scan False (Seq (Plus digit) Eol) False (pre, []) = []"
  by (subst scan.simps) (simp add: digit_eol_match del: scan.simps)

lemma sub_digit_eol_from:
  assumes "newline \<notin> set rest"
  shows "concat (map (case_sum (\<lambda>c. [c]) (\<lambda>m. []))
           (scan False (Seq (Plus digit) Eol) False (pre, rest))) = rstrip_digits rest"
  using assms
proof (induction rest arbitrary: pre)
  case Nil
  show ?case
    by (simp add: scan_Nil_digit_eol rstrip_digits_Nil del: scan.simps)
next
  case (Cons x xs)
  show ?case
  proof (cases "list_all is_digit (x # xs)")
    case True
    with Cons.prems
    have "scan False (Seq (Plus digit) Eol) False (pre, x # xs)
            = Inr (pre @ x # xs, [], []) # scan False (Seq (Plus digit) Eol) False (pre @ x # xs, [])"
      by (subst scan.simps) (simp add: digit_eol_match del: scan.simps)
    with True show ?thesis
      by (simp add: scan_Nil_digit_eol rstrip_digits_Cons del: scan.simps)
  next
    case False
    with Cons.prems
    have "scan False (Seq (Plus digit) Eol) False (pre, x # xs)
            = Inl x # scan False (Seq (Plus digit) Eol) False (pre @ [x], xs)"
      by (subst scan.simps) (simp add: digit_eol_match del: scan.simps)
    with False Cons.IH[of "pre @ [x]"] Cons.prems show ?thesis
      by (simp add: rstrip_digits_Cons del: scan.simps)
  qed
qed

lemma sub_digit_eol:
  "newline \<notin> set s \<Longrightarrow> re_sub False (Seq (Plus digit) Eol) [] s = rstrip_digits s"
  by (simp add: re_sub_def sub_digit_eol_from del: scan.simps)

lemma rstrip_digits_idem: "rstrip_digits (rstrip_digits s) = rstrip_digits s"
proof -
  have "dropWhile is_digit (dropWhile is_digit xs) = dropWhile is_digit xs" for xs
    by (simp add: dropWhile_idem)
  then show ?thesis
    by (simp add: rstrip_digits_def)
qed

lemma rstrip_digits_set: "set (rstrip_digits s) \<subseteq> set s"
  using set_dropWhileD[of _ is_digit "rev s"] by (auto simp: rstrip_digits_def)

subsection \<open>Character classes\<close>

lemma in_cls_lower:
  "in_cls c [(CHR ''a'', CHR ''z'')] \<longleftrightarrow> c \<in> set ''abcdefghijklmnopqrstuvwxyz''"
proof -
  have "(97 \<le> n \<and> n \<le> 122) \<longleftrightarrow>
      n \<in> {97, 98, 99, 100, 101, 102, 103, 104, 105, 106, 107, 108, 109}
      \<or> n \<in> {110, 111, 112, 113, 114, 115, 116, 117, 118, 119, 120, 121, 122}" for n :: nat
    by (simp; arith)
  from this[of "of_char c"] show ?thesis
    unfolding in_cls_def
    by (simp add: of_char_eq_iff[where 'a = nat, symmetric] del: of_char_eq_iff)
qed

lemma in_cls_upper:
  "in_cls c [(CHR ''A'', CHR ''Z'')] \<longleftrightarrow> c \<in> set ''ABCDEFGHIJKLMNOPQRSTUVWXYZ''"
proof -
  have "(65 \<le> n \<and> n \<le> 90) \<longleftrightarrow>
      n \<in> {65, 66, 67, 68, 69, 70, 71, 72, 73, 74, 75, 76, 77}
      \<or> n \<in> {78, 79, 80, 81, 82, 83, 84, 85, 86, 87, 88, 89, 90}" for n :: nat
    by (simp; arith)
  from this[of "of_char c"] show ?thesis
    unfolding in_cls_def
    by (simp add: of_char_eq_iff[where 'a = nat, symmetric] del: of_char_eq_iff)
qed

lemma in_cls_one: "in_cls c [(a, a)] \<longleftrightarrow> c = a"
  by (auto simp: in_cls_def)

lemma in_cls_Cons: "in_cls c (r # rs) \<longleftrightarrow> in_cls c [r] \<or> in_cls c rs"
  by (cases r) (simp add: in_cls_def)

lemma in_cls_path:
  "in_cls c [(CHR ''a'', CHR ''z''), (CHR ''A'', CHR ''Z''), (CHR ''0'', CHR ''9''),
             (CHR ''/'', CHR ''/''), (CHR ''_'', CHR ''_''), (CHR ''-'', CHR ''-'')]
     \<longleftrightarrow> path_char c"
proof -
  have "is_letter c \<longleftrightarrow> in_cls c [(CHR ''a'', CHR ''z'')] \<or> in_cls c [(CHR ''A'', CHR ''Z'')]"
    unfolding in_cls_lower in_cls_upper is_letter_def by auto
  then show ?thesis
    unfolding path_char_def
    by (subst in_cls_Cons, subst (2) in_cls_Cons, subst (3) in_cls_Cons, subst (4) in_cls_Cons,
        subst (5) in_cls_Cons) (auto simp: in_cls_one in_cls_digit)
qed

subsection \<open>What a pattern accepts\<close>

text \<open>
  \<open>accepts ml r R\<close>: from any state, the states that \<open>r\<close> can end in are those reached
  by consuming a word \<open>w\<close> and capturing \<open>c\<close> with \<open>R pre w rest' c\<close>, where \<open>pre\<close> is the
  text before the match and \<open>rest'\<close> the text after it.
\<close>

definition accepts ::
  "bool \<Rightarrow> regex \<Rightarrow> (string \<Rightarrow> string \<Rightarrow> string \<Rightarrow> captures \<Rightarrow> bool) \<Rightarrow> bool" where
  "accepts ml r R \<longleftrightarrow>
     (\<forall>pre rest g pre' rest' g'.
        (pre', rest', g') \<in> set (rmatch ml r (pre, rest, g)) \<longleftrightarrow>
        (\<exists>w c. R pre w rest' c \<and> rest = w @ rest' \<and> pre' = pre @ w \<and> g' = c @ g))"

lemma acceptsI:
  assumes "\<And>pre rest g pre' rest' g'.
        (pre', rest', g') \<in> set (rmatch ml r (pre, rest, g)) \<longleftrightarrow>
        (\<exists>w c. R pre w rest' c \<and> rest = w @ rest' \<and> pre' = pre @ w \<and> g' = c @ g)"
  shows "accepts ml r R"
  using assms unfolding accepts_def by blast

lemma acceptsD:
  assumes "accepts ml r R"
  shows "(pre', rest', g') \<in> set (rmatch ml r (pre, rest, g)) \<longleftrightarrow>
        (\<exists>w c. R pre w rest' c \<and> rest = w @ rest' \<and> pre' = pre @ w \<and> g' = c @ g)"
  using assms unfolding accepts_def by blast

lemma accepts_cong:
  assumes "accepts ml r R" and "\<And>pre w rest' c. R pre w rest' c \<longleftrightarrow> R' pre w rest' c"
  shows "accepts ml r R'"
  using assms unfolding accepts_def by simp

lemma accepts_Lit: "accepts ml (Lit v) (\<lambda>pre w rest' c. w = v \<and> c = [])"
proof (rule acceptsI)
  fix pre rest g pre' rest' g'
  have "take (length v) rest = v \<and> rest' = drop (length v) rest \<longleftrightarrow> rest = v @ rest'"
    by (metis append_eq_conv_conj)
  then show "(pre', rest', g') \<in> set (rmatch ml (Lit v) (pre, rest, g)) \<longleftrightarrow>
        (\<exists>w c. (w = v \<and> c = []) \<and> rest = w @ rest' \<and> pre' = pre @ w \<and> g' = c @ g)"
    by auto
qed

lemma accepts_Star_single:
  assumes "single a P"
  shows "accepts ml (Star a) (\<lambda>pre w rest' c. (\<forall>x \<in> set w. P x) \<and> c = [])"
proof (rule acceptsI)
  fix pre rest g pre' rest' g'
  show "(pre', rest', g') \<in> set (rmatch ml (Star a) (pre, rest, g)) \<longleftrightarrow>
        (\<exists>w c. ((\<forall>x \<in> set w. P x) \<and> c = []) \<and> rest = w @ rest' \<and> pre' = pre @ w \<and> g' = c @ g)"
    unfolding star_single_set[OF assms] by auto
qed

lemma accepts_Plus_single:
  assumes "single a P"
  shows "accepts ml (Plus a) (\<lambda>pre w rest' c. w \<noteq> [] \<and> (\<forall>x \<in> set w. P x) \<and> c = [])"
proof (rule acceptsI)
  fix pre rest g pre' rest' g'
  show "(pre', rest', g') \<in> set (rmatch ml (Plus a) (pre, rest, g)) \<longleftrightarrow>
        (\<exists>w c. (w \<noteq> [] \<and> (\<forall>x \<in> set w. P x) \<and> c = []) \<and> rest = w @ rest' \<and> pre' = pre @ w
           \<and> g' = c @ g)"
    unfolding plus_single_set[OF assms] by auto
qed

lemma accepts_Seq:
  assumes a: "accepts ml a Ra" and b: "accepts ml b Rb"
  shows "accepts ml (Seq a b)
     (\<lambda>pre w rest' c. \<exists>u v ca cb. w = u @ v \<and> Ra pre u (v @ rest') ca \<and> Rb (pre @ u) v rest' cb
        \<and> c = cb @ ca)"
proof (rule acceptsI)
  fix pre rest g pre' rest' g'
  have "(pre', rest', g') \<in> set (rmatch ml (Seq a b) (pre, rest, g)) \<longleftrightarrow>
      (\<exists>p r h. (p, r, h) \<in> set (rmatch ml a (pre, rest, g))
         \<and> (pre', rest', g') \<in> set (rmatch ml b (p, r, h)))"
    by auto
  also have "\<dots> \<longleftrightarrow> (\<exists>p r h. (\<exists>u ca. Ra pre u r ca \<and> rest = u @ r \<and> p = pre @ u \<and> h = ca @ g)
         \<and> (\<exists>v cb. Rb p v rest' cb \<and> r = v @ rest' \<and> pre' = p @ v \<and> g' = cb @ h))"
    unfolding acceptsD[OF a] acceptsD[OF b] ..
  also have "\<dots> \<longleftrightarrow> (\<exists>w c. (\<exists>u v ca cb. w = u @ v \<and> Ra pre u (v @ rest') ca
        \<and> Rb (pre @ u) v rest' cb \<and> c = cb @ ca)
        \<and> rest = w @ rest' \<and> pre' = pre @ w \<and> g' = c @ g)"
  proof
    assume "\<exists>p r h. (\<exists>u ca. Ra pre u r ca \<and> rest = u @ r \<and> p = pre @ u \<and> h = ca @ g)
         \<and> (\<exists>v cb. Rb p v rest' cb \<and> r = v @ rest' \<and> pre' = p @ v \<and> g' = cb @ h)"
    then obtain p r h u ca v cb where
      "Ra pre u r ca" "rest = u @ r" "p = pre @ u" "h = ca @ g"
      "Rb p v rest' cb" "r = v @ rest'" "pre' = p @ v" "g' = cb @ h"
      by blast
    then have "(u @ v = u @ v \<and> Ra pre u (v @ rest') ca \<and> Rb (pre @ u) v rest' cb
        \<and> cb @ ca = cb @ ca)
        \<and> rest = (u @ v) @ rest' \<and> pre' = pre @ (u @ v) \<and> g' = (cb @ ca) @ g"
      by simp
    then show "\<exists>w c. (\<exists>u v ca cb. w = u @ v \<and> Ra pre u (v @ rest') ca
        \<and> Rb (pre @ u) v rest' cb \<and> c = cb @ ca)
        \<and> rest = w @ rest' \<and> pre' = pre @ w \<and> g' = c @ g"
      by blast
  next
    assume "\<exists>w c. (\<exists>u v ca cb. w = u @ v \<and> Ra pre u (v @ rest') ca
        \<and> Rb (pre @ u) v rest' cb \<and> c = cb @ ca)
        \<and> rest = w @ rest' \<and> pre' = pre @ w \<and> g' = c @ g"
    then obtain w c u v ca cb where
      "w = u @ v" "Ra pre u (v @ rest') ca" "Rb (pre @ u) v rest' cb" "c = cb @ ca"
      "rest = w @ rest'" "pre' = pre @ w" "g' = c @ g"
      by blast
    then have "(Ra pre u (v @ rest') ca \<and> rest = u @ (v @ rest') \<and> pre @ u = pre @ u
          \<and> ca @ g = ca @ g)
         \<and> (Rb (pre @ u) v rest' cb \<and> v @ rest' = v @ rest' \<and> pre' = (pre @ u) @ v
          \<and> g' = cb @ (ca @ g))"
      by simp
    then show "\<exists>p r h. (\<exists>u ca. Ra pre u r ca \<and> rest = u @ r \<and> p = pre @ u \<and> h = ca @ g)
         \<and> (\<exists>v cb. Rb p v rest' cb \<and> r = v @ rest' \<and> pre' = p @ v \<and> g' = cb @ h)"
      by blast
  qed
  finally show "(pre', rest', g') \<in> set (rmatch ml (Seq a b) (pre, rest, g)) \<longleftrightarrow>
     (\<exists>w c. (\<exists>u v ca cb. w = u @ v \<and> Ra pre u (v @ rest') ca
        \<and> Rb (pre @ u) v rest' cb \<and> c = cb @ ca)
        \<and> rest = w @ rest' \<and> pre' = pre @ w \<and> g' = c @ g)" .
qed

lemma accepts_Alt:
  assumes a: "accepts ml a Ra" and b: "accepts ml b Rb"
  shows "accepts ml (Alt a b) (\<lambda>pre w rest' c. Ra pre w rest' c \<or> Rb pre w rest' c)"
proof (rule acceptsI)
  fix pre rest g pre' rest' g'
  have "(pre', rest', g') \<in> set (rmatch ml (Alt a b) (pre, rest, g)) \<longleftrightarrow>
      (pre', rest', g') \<in> set (rmatch ml a (pre, rest, g))
      \<or> (pre', rest', g') \<in> set (rmatch ml b (pre, rest, g))"
    by simp
  then show "(pre', rest', g') \<in> set (rmatch ml (Alt a b) (pre, rest, g)) \<longleftrightarrow>
     (\<exists>w c. (Ra pre w rest' c \<or> Rb pre w rest' c)
        \<and> rest = w @ rest' \<and> pre' = pre @ w \<and> g' = c @ g)"
    unfolding acceptsD[OF a] acceptsD[OF b] by blast
qed

lemma accepts_Group:
  assumes a: "accepts ml a Ra"
  shows "accepts ml (Group n a) (\<lambda>pre w rest' c. \<exists>ca. Ra pre w rest' ca \<and> c = (n, w) # ca)"
proof (rule acceptsI)
  fix pre rest g pre' rest' g'
  have "(pre', rest', g') \<in> set (rmatch ml (Group n a) (pre, rest, g)) \<longleftrightarrow>
      (\<exists>h. (pre', rest', h) \<in> set (rmatch ml a (pre, rest, g))
         \<and> g' = (n, drop (length pre) pre') # h)"
    by force
  also have "\<dots> \<longleftrightarrow> (\<exists>h. (\<exists>w ca. Ra pre w rest' ca \<and> rest = w @ rest' \<and> pre' = pre @ w \<and> h = ca @ g)
         \<and> g' = (n, drop (length pre) pre') # h)"
    unfolding acceptsD[OF a] ..
  also have "\<dots> \<longleftrightarrow> (\<exists>w c. (\<exists>ca. Ra pre w rest' ca \<and> c = (n, w) # ca)
        \<and> rest = w @ rest' \<and> pre' = pre @ w \<and> g' = c @ g)"
    by (rule iffI; clarsimp)
  finally show "(pre', rest', g') \<in> set (rmatch ml (Group n a) (pre, rest, g)) \<longleftrightarrow>
     (\<exists>w c. (\<exists>ca. Ra pre w rest' ca \<and> c = (n, w) # ca)
        \<and> rest = w @ rest' \<and> pre' = pre @ w \<and> g' = c @ g)" .
qed

definition at_bol :: "bool \<Rightarrow> string \<Rightarrow> bool" where
  "at_bol ml pre \<longleftrightarrow> pre = [] \<or> (ml \<and> last pre = newline)"

definition at_eol :: "bool \<Rightarrow> string \<Rightarrow> bool" where
  "at_eol ml rest \<longleftrightarrow> rest = [] \<or> rest = [newline] \<or> (ml \<and> hd rest = newline)"

lemma accepts_Bol: "accepts ml Bol (\<lambda>pre w rest' c. w = [] \<and> c = [] \<and> at_bol ml pre)"
  by (rule acceptsI) (auto simp: at_bol_def)

lemma accepts_Eol: "accepts ml Eol (\<lambda>pre w rest' c. w = [] \<and> c = [] \<and> at_eol ml rest')"
  by (rule acceptsI) (auto simp: at_eol_def)

subsection \<open>The pattern of a device line\<close>

lemma accepts_token:
  assumes a: "accepts ml a (\<lambda>pre w rest' c. T w \<and> c = [(k, w)])"
    and b: "accepts ml b (\<lambda>pre. Rb)"
  shows "accepts ml (Seq a (Seq (Lit '' '') b))
     (\<lambda>pre w rest' c. \<exists>t v cb. w = t @ '' '' @ v \<and> T t \<and> Rb v rest' cb \<and> c = cb @ [(k, t)])"
proof (rule accepts_cong[OF accepts_Seq[OF a accepts_Seq[OF accepts_Lit b]]])
  fix pre w rest' c
  show "(\<exists>u v ca cb. w = u @ v \<and> (T u \<and> ca = [(k, u)])
          \<and> (\<exists>ua va caa cba. v = ua @ va \<and> (ua = '' '' \<and> caa = []) \<and> Rb va rest' cba
                \<and> cb = cba @ caa)
          \<and> c = cb @ ca)
        \<longleftrightarrow> (\<exists>t v cb. w = t @ '' '' @ v \<and> T t \<and> Rb v rest' cb \<and> c = cb @ [(k, t)])"
    by (rule iffI; clarsimp; blast)
qed

lemma accepts_disk_re:
  "accepts ml disk_re (\<lambda>pre w rest' c. device_path w \<and> c = [(1, w)])"
  unfolding disk_re_def
proof (rule accepts_cong[OF accepts_Group[OF accepts_Seq[OF accepts_Lit
          accepts_Star_single[OF single_Cls]]]])
  fix pre w rest' c
  have "(\<exists>v. w = ''/dev/'' @ v \<and> (\<forall>x \<in> set v. path_char x)) \<longleftrightarrow> device_path w"
  proof
    assume "\<exists>v. w = ''/dev/'' @ v \<and> (\<forall>x \<in> set v. path_char x)"
    then obtain v where "w = ''/dev/'' @ v" "\<forall>x \<in> set v. path_char x"
      by blast
    then show "device_path w"
      by (auto simp: device_path_def path_char_def is_letter_def)
  next
    assume d: "device_path w"
    then have "w = ''/dev/'' @ drop 5 w"
      unfolding device_path_def by (metis append_take_drop_id)
    moreover from d have "\<forall>x \<in> set (drop 5 w). path_char x"
      unfolding device_path_def by (meson in_set_dropD)
    ultimately show "\<exists>v. w = ''/dev/'' @ v \<and> (\<forall>x \<in> set v. path_char x)"
      by blast
  qed
  then show "(\<exists>ca. (\<exists>u v ca' cb. w = u @ v \<and> (u = ''/dev/'' \<and> ca' = [])
            \<and> ((\<forall>x \<in> set v.
                   in_cls x [(CHR ''a'', CHR ''z''), (CHR ''A'', CHR ''Z''), (CHR ''0'', CHR ''9''),
                             (CHR ''/'', CHR ''/''), (CHR ''_'', CHR ''_''), (CHR ''-'', CHR ''-'')])
                 \<and> cb = [])
            \<and> ca = cb @ ca') \<and> c = (1, w) # ca)
        \<longleftrightarrow> device_path w \<and> c = [(1, w)]"
    unfolding in_cls_path by auto
qed

lemma accepts_alts_Lit:
  "ws \<noteq> [] \<Longrightarrow> accepts ml (alts (map Lit ws)) (\<lambda>pre w rest' c. w \<in> set ws \<and> c = [])"
proof (induction ws)
  case Nil
  then show ?case by simp
next
  case (Cons v vs)
  show ?case
  proof (cases vs)
    case Nil
    have "accepts ml (Lit v) (\<lambda>pre w rest' c. w \<in> set [v] \<and> c = [])"
      by (rule accepts_cong[OF accepts_Lit]) simp
    then show ?thesis
      unfolding Nil by simp
  next
    case (Cons u us)
    then have "accepts ml (alts (map Lit vs)) (\<lambda>pre w rest' c. w \<in> set vs \<and> c = [])"
      using Cons.IH by simp
    from accepts_Alt[OF accepts_Lit[of ml v] this]
    have "accepts ml (Alt (Lit v) (alts (map Lit vs)))
            (\<lambda>pre w rest' c. w \<in> set (v # vs) \<and> c = [])"
      by (rule accepts_cong) auto
    then show ?thesis
      unfolding Cons by simp
  qed
qed

lemma accepts_states_re:
  "accepts ml states_re (\<lambda>pre w rest' c. w \<in> set states \<and> c = [(2, w)])"
proof -
  have "states \<noteq> []"
    by (simp add: states_def)
  from accepts_Group[OF accepts_alts_Lit[OF this]] show ?thesis
    unfolding states_re_def by (rule accepts_cong) auto
qed

lemma accepts_num_re:
  "accepts ml (num_re n) (\<lambda>pre w rest' c. number w \<and> c = [(n, w)])"
proof -
  have "accepts ml (Group n (Plus digit)) (\<lambda>pre w rest' c. number w \<and> c = [(n, w)])"
    by (rule accepts_cong[OF accepts_Group[OF accepts_Plus_single[OF single_digit]]])
       (auto simp: number_def)
  then show ?thesis
    by (simp add: num_re_def Plus_def)
qed


lemma accepts_tail5:
  "accepts ml (Seq (num_re 5) Eol)
     (\<lambda>pre w rest' c. number w \<and> at_eol ml rest' \<and> c = [(5, w)])"
  by (rule accepts_cong[OF accepts_Seq[OF accepts_num_re accepts_Eol]]) auto

lemma accepts_tail4:
  "accepts ml (Seq (num_re 4) (Seq (Lit '' '') (Seq (num_re 5) Eol)))
     (\<lambda>pre w rest' c. \<exists>n2 n3. w = n2 @ '' '' @ n3 \<and> number n2 \<and> number n3 \<and> at_eol ml rest'
        \<and> c = [(5, n3), (4, n2)])"
  by (rule accepts_cong[OF accepts_token[OF accepts_num_re accepts_tail5]]) auto

lemma accepts_tail3:
  "accepts ml (Seq (num_re 3) (Seq (Lit '' '') (Seq (num_re 4) (Seq (Lit '' '')
       (Seq (num_re 5) Eol)))))
     (\<lambda>pre w rest' c. \<exists>n1 n2 n3. w = n1 @ '' '' @ n2 @ '' '' @ n3
        \<and> number n1 \<and> number n2 \<and> number n3 \<and> at_eol ml rest'
        \<and> c = [(5, n3), (4, n2), (3, n1)])"
  by (rule accepts_cong[OF accepts_token[OF accepts_num_re accepts_tail4]]) auto

lemma accepts_tail2:
  "accepts ml (Seq states_re (Seq (Lit '' '') (Seq (num_re 3) (Seq (Lit '' '')
       (Seq (num_re 4) (Seq (Lit '' '') (Seq (num_re 5) Eol)))))))
     (\<lambda>pre w rest' c. \<exists>st n1 n2 n3. w = st @ '' '' @ n1 @ '' '' @ n2 @ '' '' @ n3
        \<and> st \<in> set states \<and> number n1 \<and> number n2 \<and> number n3 \<and> at_eol ml rest'
        \<and> c = [(5, n3), (4, n2), (3, n1), (2, st)])"
  by (rule accepts_cong[OF accepts_token[OF accepts_states_re accepts_tail3]]) auto

lemma accepts_tail1:
  "accepts ml (Seq disk_re (Seq (Lit '' '') (Seq states_re (Seq (Lit '' '') (Seq (num_re 3)
       (Seq (Lit '' '') (Seq (num_re 4) (Seq (Lit '' '') (Seq (num_re 5) Eol)))))))))
     (\<lambda>pre w rest' c. \<exists>d st n1 n2 n3. w = d @ '' '' @ st @ '' '' @ n1 @ '' '' @ n2 @ '' '' @ n3
        \<and> device_path d \<and> st \<in> set states \<and> number n1 \<and> number n2 \<and> number n3
        \<and> at_eol ml rest'
        \<and> c = [(5, n3), (4, n2), (3, n1), (2, st), (1, d)])"
  by (rule accepts_cong[OF accepts_token[OF accepts_disk_re accepts_tail2]]) auto

lemma accepts_line_re:
  "accepts ml line_re
     (\<lambda>pre w rest' c. at_bol ml pre \<and> at_eol ml rest'
        \<and> (\<exists>d st n1 n2 n3. w = d @ '' '' @ st @ '' '' @ n1 @ '' '' @ n2 @ '' '' @ n3
              \<and> device_path d \<and> st \<in> set states \<and> number n1 \<and> number n2 \<and> number n3
              \<and> c = [(5, n3), (4, n2), (3, n1), (2, st), (1, d)]))"
  unfolding line_re_def seqs.simps
  by (rule accepts_cong[OF accepts_Seq[OF accepts_Bol accepts_tail1]]) auto

subsection \<open>Matching a line, and \<open>findall\<close> over the lines of a text\<close>

lemma path_char_plain: "path_char c \<Longrightarrow> c \<noteq> newline \<and> c \<noteq> CHR '' ''"
  by (auto simp: path_char_def is_letter_def is_digit_def)

lemma is_digit_plain: "is_digit c \<Longrightarrow> c \<noteq> newline \<and> c \<noteq> CHR '' ''"
  by (auto simp: is_digit_def)

lemma states_plain: "st \<in> set states \<Longrightarrow> newline \<notin> set st"
  by (auto simp: states_def)

lemma device_line_no_newline:
  assumes "device_line l"
  shows "newline \<notin> set l"
proof -
  from assms obtain d st n1 n2 n3 where
    l: "l = d @ '' '' @ st @ '' '' @ n1 @ '' '' @ n2 @ '' '' @ n3"
    and "device_path d" "st \<in> set states" "number n1" "number n2" "number n3"
    unfolding device_line_def by blast
  have "newline \<notin> set d"
    using \<open>device_path d\<close> path_char_plain unfolding device_path_def by blast
  moreover have "newline \<notin> set st"
    using \<open>st \<in> set states\<close> by (rule states_plain)
  moreover have "newline \<notin> set n" if "number n" for n
    using that is_digit_plain unfolding number_def by blast
  ultimately show ?thesis
    using \<open>number n1\<close> \<open>number n2\<close> \<open>number n3\<close> unfolding l by simp
qed

lemma device_line_first_token:
  assumes "l = d @ '' '' @ r" and "device_path d"
  shows "first_token l = d"
proof -
  from assms(2) have "\<And>x. x \<in> set d \<Longrightarrow> x \<noteq> CHR '' ''"
    using path_char_plain unfolding device_path_def by blast
  then have "takeWhile (\<lambda>c. c \<noteq> CHR '' '') (d @ '' '' @ r) = d @ takeWhile (\<lambda>c. c \<noteq> CHR '' '') ('' '' @ r)"
    by (rule takeWhile_append2)
  then show ?thesis
    by (simp add: first_token_def assms(1))
qed

lemma device_line_nonempty: "\<not> device_line []"
  by (simp add: device_line_def)

lemma same_line:
  assumes "newline \<notin> set w" "newline \<notin> set l"
    and "r = [] \<or> hd r = newline" "t = [] \<or> hd t = newline"
    and "w @ r = l @ t"
  shows "w = l \<and> r = t"
proof -
  have tw: "takeWhile (\<lambda>c. c \<noteq> newline) (u @ v) = u"
    if "newline \<notin> set u" "v = [] \<or> hd v = newline" for u v
  proof -
    from that(1) have "takeWhile (\<lambda>c. c \<noteq> newline) (u @ v) = u @ takeWhile (\<lambda>c. c \<noteq> newline) v"
      by (intro takeWhile_append2) auto
    moreover from that(2) have "takeWhile (\<lambda>c. c \<noteq> newline) v = []"
      by (cases v) auto
    ultimately show ?thesis
      by simp
  qed
  from tw[OF assms(1,3)] tw[OF assms(2,4)] assms(5) have "w = l"
    by simp
  with assms(5) show ?thesis
    by simp
qed

lemma at_eol_True: "at_eol True r \<longleftrightarrow> r = [] \<or> hd r = newline"
  by (auto simp: at_eol_def)

lemma line_results:
  assumes "newline \<notin> set l" and "post = [] \<or> hd post = newline"
  shows "(pre', rest', g') \<in> set (rmatch True line_re (pre, l @ post, [])) \<longleftrightarrow>
     at_bol True pre \<and> pre' = pre @ l \<and> rest' = post
     \<and> (\<exists>d st n1 n2 n3. l = d @ '' '' @ st @ '' '' @ n1 @ '' '' @ n2 @ '' '' @ n3
           \<and> device_path d \<and> st \<in> set states \<and> number n1 \<and> number n2 \<and> number n3
           \<and> g' = [(5, n3), (4, n2), (3, n1), (2, st), (1, d)])"
    (is "?L \<longleftrightarrow> ?R")
proof
  assume ?L
  then obtain w c where bol: "at_bol True pre" and eol: "at_eol True rest'"
    and w: "\<exists>d st n1 n2 n3. w = d @ '' '' @ st @ '' '' @ n1 @ '' '' @ n2 @ '' '' @ n3
              \<and> device_path d \<and> st \<in> set states \<and> number n1 \<and> number n2 \<and> number n3
              \<and> c = [(5, n3), (4, n2), (3, n1), (2, st), (1, d)]"
    and eq: "l @ post = w @ rest'" "pre' = pre @ w" "g' = c @ []"
    unfolding acceptsD[OF accepts_line_re] by blast
  from w have "device_line w"
    unfolding device_line_def by blast
  then have "newline \<notin> set w"
    by (rule device_line_no_newline)
  from same_line[OF this assms(1) eol[unfolded at_eol_True] assms(2) eq(1)[symmetric]]
  have "w = l" "rest' = post"
    by simp_all
  with bol w eq show ?R
    by simp
next
  assume r: ?R
  then have "at_eol True rest'"
    using assms(2) by (simp add: at_eol_True)
  with r have "\<exists>w c. (at_bol True pre \<and> at_eol True rest'
        \<and> (\<exists>d st n1 n2 n3. w = d @ '' '' @ st @ '' '' @ n1 @ '' '' @ n2 @ '' '' @ n3
              \<and> device_path d \<and> st \<in> set states \<and> number n1 \<and> number n2 \<and> number n3
              \<and> c = [(5, n3), (4, n2), (3, n1), (2, st), (1, d)]))
        \<and> l @ post = w @ rest' \<and> pre' = pre @ w \<and> g' = c @ []"
    by (intro exI[of _ l] exI[of _ g']) simp
  then show ?L
    unfolding acceptsD[OF accepts_line_re] .
qed

lemma line_match_none:
  assumes "newline \<notin> set l" and "post = [] \<or> hd post = newline"
    and "\<not> (at_bol True pre \<and> device_line l)"
  shows "match_at True line_re adv (pre, l @ post) = None"
proof (rule match_at_none)
  show "set (rmatch True line_re (pre, l @ post, [])) = {}"
  proof (rule equals0I)
    fix s assume s: "s \<in> set (rmatch True line_re (pre, l @ post, []))"
    obtain pre' rest' g' where "s = (pre', rest', g')"
      by (cases s)
    with s line_results[OF assms(1,2), of pre' rest' g' pre] assms(3) show False
      unfolding device_line_def by blast
  qed
qed

lemma line_match_some:
  assumes "newline \<notin> set l" and "post = [] \<or> hd post = newline"
    and "at_bol True pre" and "device_line l"
  shows "\<exists>g. match_at True line_re False (pre, l @ post) = Some (pre @ l, post, g)
           \<and> group_text g 1 = first_token l"
proof -
  from assms(4) obtain d st n1 n2 n3 where
    l: "l = d @ '' '' @ st @ '' '' @ n1 @ '' '' @ n2 @ '' '' @ n3"
    "device_path d" "st \<in> set states" "number n1" "number n2" "number n3"
    unfolding device_line_def by blast
  with assms(3)
  have "(pre @ l, post, [(5, n3), (4, n2), (3, n1), (2, st), (1, d)])
          \<in> set (rmatch True line_re (pre, l @ post, []))"
    unfolding line_results[OF assms(1,2)] by blast
  then obtain s ss where ss: "rmatch True line_re (pre, l @ post, []) = s # ss"
    by (cases "rmatch True line_re (pre, l @ post, [])") auto
  obtain pre' rest' g' where s: "s = (pre', rest', g')"
    by (cases s)
  from ss s have "(pre', rest', g') \<in> set (rmatch True line_re (pre, l @ post, []))"
    by simp
  then have "pre' = pre @ l \<and> rest' = post
     \<and> (\<exists>d st n1 n2 n3. l = d @ '' '' @ st @ '' '' @ n1 @ '' '' @ n2 @ '' '' @ n3
           \<and> device_path d \<and> st \<in> set states \<and> number n1 \<and> number n2 \<and> number n3
           \<and> g' = [(5, n3), (4, n2), (3, n1), (2, st), (1, d)])"
    unfolding line_results[OF assms(1,2)] by blast
  then obtain d' st' m1 m2 m3 where p: "pre' = pre @ l" "rest' = post"
    and l': "l = d' @ '' '' @ (st' @ '' '' @ m1 @ '' '' @ m2 @ '' '' @ m3)" "device_path d'"
    and g': "g' = [(5, m3), (4, m2), (3, m1), (2, st'), (1, d')]"
    by blast
  have "group_text g' 1 = d'"
    unfolding g' by (simp add: group_text_def)
  with device_line_first_token[OF l'] have "group_text g' 1 = first_token l"
    by simp
  with ss s p show ?thesis
    by (simp add: match_at_False)
qed


lemma not_bol_append: "x \<noteq> newline \<Longrightarrow> \<not> at_bol True (p @ [x])"
  by (simp add: at_bol_def)

lemma bol_newline: "at_bol True (p @ [newline])"
  by (simp add: at_bol_def)

lemma no_bol_match:
  assumes "\<not> at_bol True p"
  shows "match_at True line_re adv (p, rest) = None"
proof (rule match_at_none)
  show "set (rmatch True line_re (p, rest, [])) = {}"
  proof (rule equals0I)
    fix s assume s: "s \<in> set (rmatch True line_re (p, rest, []))"
    obtain pre' rest' g' where "s = (pre', rest', g')"
      by (cases s)
    with s have "(pre', rest', g') \<in> set (rmatch True line_re (p, rest, []))"
      by simp
    then have "at_bol True p"
      unfolding acceptsD[OF accepts_line_re] by blast
    with assms show False
      by simp
  qed
qed

lemma scan_end: "scan True line_re adv (p, []) = []"
proof -
  have "match_at True line_re adv (p, [] @ []) = None"
    by (rule line_match_none) (simp_all add: device_line_nonempty)
  then show ?thesis
    by (subst scan.simps) (simp del: scan.simps)
qed

lemma scan_newline:
  "scan True line_re adv (p, newline # t) = Inl newline # scan True line_re False (p @ [newline], t)"
proof -
  have "match_at True line_re adv (p, [] @ newline # t) = None"
    by (rule line_match_none) (simp_all add: device_line_nonempty)
  then show ?thesis
    by (subst scan.simps) (simp del: scan.simps)
qed

lemma scan_skip:
  assumes "newline \<notin> set l" and "\<not> at_bol True p"
  shows "\<exists>adv'. scan True line_re adv (p, l @ post)
           = map Inl l @ scan True line_re adv' (p @ l, post)"
  using assms
proof (induction l arbitrary: p adv)
  case Nil
  show ?case
    by (intro exI[of _ adv]) simp
next
  case (Cons x xs)
  from Cons.prems have x: "x \<noteq> newline" "newline \<notin> set xs"
    by auto
  have "scan True line_re adv (p, x # xs @ post)
          = Inl x # scan True line_re False (p @ [x], xs @ post)"
    by (subst scan.simps) (simp add: no_bol_match[OF Cons.prems(2)] del: scan.simps)
  moreover from Cons.IH[OF x(2) not_bol_append[OF x(1)], of False]
  obtain adv' where "scan True line_re False (p @ [x], xs @ post)
          = map Inl xs @ scan True line_re adv' ((p @ [x]) @ xs, post)"
    by blast
  ultimately show ?case
    by (intro exI[of _ adv']) simp
qed

text \<open>The first groups of the matches of a scan: what \<open>extract_devices\<close> returns.\<close>

definition devices_of :: "(char + mstate) list \<Rightarrow> string list" where
  "devices_of xs =
     map (\<lambda>(pre, rest, g). group_text g 1) (concat (map (case_sum (\<lambda>c. []) (\<lambda>m. [m])) xs))"

lemma devices_of_simps:
  "devices_of [] = []"
  "devices_of (Inl c # xs) = devices_of xs"
  "devices_of (Inr (pre, rest, g) # xs) = group_text g 1 # devices_of xs"
  "devices_of (map Inl l @ xs) = devices_of xs"
  by (simp_all add: devices_of_def)

lemma scan_line:
  assumes "newline \<notin> set l" and "post = [] \<or> hd post = newline" and "at_bol True pre"
  shows "\<exists>adv'. devices_of (scan True line_re False (pre, l @ post))
           = (if device_line l then [first_token l] else [])
             @ devices_of (scan True line_re adv' (pre @ l, post))"
proof (cases "device_line l")
  case True
  from line_match_some[OF assms True] obtain g where
    g: "match_at True line_re False (pre, l @ post) = Some (pre @ l, post, g)"
    "group_text g 1 = first_token l"
    by blast
  have "scan True line_re False (pre, l @ post)
          = Inr (pre @ l, post, g) # scan True line_re (length post = length (l @ post)) (pre @ l, post)"
    by (subst scan.simps) (simp add: g(1) del: scan.simps)
  with g(2) True show ?thesis
    by (intro exI[of _ "length post = length (l @ post)"]) (simp add: devices_of_simps)
next
  case False
  show ?thesis
  proof (cases l)
    case Nil
    with False show ?thesis
      by (intro exI[of _ False]) simp
  next
    case (Cons x xs)
    with assms(1) have x: "x \<noteq> newline" "newline \<notin> set xs"
      by auto
    have "match_at True line_re False (pre, l @ post) = None"
      using False by (intro line_match_none[OF assms(1,2)]) simp
    then have "scan True line_re False (pre, l @ post)
          = Inl x # scan True line_re False (pre @ [x], xs @ post)"
      unfolding Cons by (subst scan.simps) (simp del: scan.simps)
    moreover from scan_skip[OF x(2) not_bol_append[OF x(1)], of False pre post]
    obtain adv' where "scan True line_re False (pre @ [x], xs @ post)
          = map Inl xs @ scan True line_re adv' ((pre @ [x]) @ xs, post)"
      by blast
    ultimately have "devices_of (scan True line_re False (pre, l @ post))
          = devices_of (scan True line_re adv' (pre @ l, post))"
      by (simp add: devices_of_simps Cons)
    with False show ?thesis
      by (intro exI[of _ adv']) simp
  qed
qed

lemma scan_lines:
  assumes "\<forall>l \<in> set ls. newline \<notin> set l" and "at_bol True pre"
  shows "devices_of (scan True line_re False (pre, join [newline] ls))
           = concat (map (\<lambda>l. if device_line l then [first_token l] else []) ls)"
  using assms
proof (induction "[newline]" ls arbitrary: pre rule: join.induct)
  case 1
  show ?case
    by (simp add: scan_end devices_of_simps del: scan.simps)
next
  case (2 l)
  from scan_line[of l "[]" pre] 2 obtain adv' where
    "devices_of (scan True line_re False (pre, l @ []))
       = (if device_line l then [first_token l] else [])
         @ devices_of (scan True line_re adv' (pre @ l, []))"
    by auto
  then show ?case
    by (simp add: scan_end devices_of_simps del: scan.simps)
next
  case (3 l q ps)
  let ?J = "join [newline] (q # ps)"
  from scan_line[of l "newline # ?J" pre] 3(2,3) obtain adv' where
    "devices_of (scan True line_re False (pre, l @ newline # ?J))
       = (if device_line l then [first_token l] else [])
         @ devices_of (scan True line_re adv' (pre @ l, newline # ?J))"
    by auto
  moreover have "devices_of (scan True line_re adv' (pre @ l, newline # ?J))
       = devices_of (scan True line_re False ((pre @ l) @ [newline], ?J))"
    by (simp add: scan_newline devices_of_simps del: scan.simps)
  moreover have "devices_of (scan True line_re False ((pre @ l) @ [newline], ?J))
       = concat (map (\<lambda>l. if device_line l then [first_token l] else []) (q # ps))"
    using 3(2) by (intro 3(1) bol_newline) simp
  ultimately show ?case
    by (simp del: scan.simps)
qed

lemma extract_devices_eq:
  "extract_devices status_str = devices_of (scan True line_re False ([], status_str))"
proof -
  have "map f [1..<Suc 5] ! 0 = f 1" for f :: "nat \<Rightarrow> string"
    by (simp add: upt_rec)
  then show ?thesis
    by (simp add: extract_devices_def re_findall_def devices_of_def case_prod_unfold
        del: scan.simps upt_Suc)
qed

lemma extract_devices_lines:
  assumes "\<forall>l \<in> set ls. newline \<notin> set l"
  shows "extract_devices (join [newline] ls)
           = concat (map (\<lambda>l. if device_line l then [first_token l] else []) ls)"
  unfolding extract_devices_eq
  by (rule scan_lines[OF assms]) (simp add: at_bol_def)


section \<open>Base-disk resolution\<close>

lemma strip_digits_fd:
  "re_sub False (Seq (Plus digit) Eol) [] ''/dev/fd0'' = ''/dev/fd''"
  "re_sub False (Seq (Plus digit) Eol) [] ''/proc/4242/fd'' = ''/proc/4242/fd''"
  "re_sub False (Seq (Plus digit) Eol) [] (''/dev/sda1'' @ [newline] @ ''12'') = ''/dev/sda1'' @ [newline]"
  "re_sub False (Seq (Plus digit) Eol) [] (''/dev/sda1'' @ [newline]) = ''/dev/sda'' @ [newline]"
  by code_simp+

text \<open>
  Claim C3 says that base-disk resolution is idempotent at every path. It is not, for
  two reasons. The path without its digits may be a symbolic link again: resolving
  \<open>/dev/fd0\<close> gives \<open>/dev/fd\<close>, and resolving that gives \<open>/proc/4242/fd\<close>. And \<open>$\<close>
  matches before a newline that ends the string, so a path that contains a newline
  may lose digits twice.
\<close>

theorem base_disk_not_idempotent_counterexample:
  "base_disk_for_block_device fd_env ''/dev/fd0'' = ''/dev/fd''
   \<and> base_disk_for_block_device fd_env (base_disk_for_block_device fd_env ''/dev/fd0'')
       = ''/proc/4242/fd''
   \<and> base_disk_for_block_device example_env (''/dev/sda1'' @ [newline] @ ''12'')
       = ''/dev/sda1'' @ [newline]
   \<and> base_disk_for_block_device example_env
         (base_disk_for_block_device example_env (''/dev/sda1'' @ [newline] @ ''12''))
       = ''/dev/sda'' @ [newline]"
proof -
  have "realpath fd_env ''/dev/fd0'' = ''/dev/fd0''" "realpath fd_env ''/dev/fd'' = ''/proc/4242/fd''"
    by (simp_all add: fd_env_def)
  then show ?thesis
    using strip_digits_fd
    by (simp add: base_disk_for_block_device_def example_realpath)
qed

text \<open>
  Claim C3, amended. Base-disk resolution is idempotent at every path whose canonical
  path contains no newline and whose base disk is canonical (symbolic links resolved);
  the base disk is then the canonical path without the maximal run of decimal digits
  that ends it.
\<close>

theorem base_disk_idempotent_when_canonical:
  assumes "realpath env (base_disk_for_block_device env x) = base_disk_for_block_device env x"
    and "newline \<notin> set (realpath env x)"
  shows "base_disk_for_block_device env (base_disk_for_block_device env x)
           = base_disk_for_block_device env x
     \<and> base_disk_for_block_device env x = rstrip_digits (realpath env x)"
proof -
  have b: "base_disk_for_block_device env x = rstrip_digits (realpath env x)"
    using assms(2) by (simp add: base_disk_for_block_device_def sub_digit_eol)
  have "newline \<notin> set (rstrip_digits (realpath env x))"
    using assms(2) rstrip_digits_set[of "realpath env x"] by blast
  then have "re_sub False (Seq (Plus digit) Eol) [] (rstrip_digits (realpath env x))
               = rstrip_digits (rstrip_digits (realpath env x))"
    by (rule sub_digit_eol)
  then have "base_disk_for_block_device env (rstrip_digits (realpath env x))
               = rstrip_digits (realpath env x)"
    using assms(1) unfolding b
    by (simp add: base_disk_for_block_device_def rstrip_digits_idem)
  with b show ?thesis
    by simp
qed

theorem base_disk_idempotent_when_canonical_witness:
  "realpath example_env (base_disk_for_block_device example_env ''/dev/sda1'')
     = base_disk_for_block_device example_env ''/dev/sda1''
   \<and> newline \<notin> set (realpath example_env ''/dev/sda1'')
   \<and> base_disk_for_block_device example_env (base_disk_for_block_device example_env ''/dev/sda1'')
       = base_disk_for_block_device example_env ''/dev/sda1''
   \<and> base_disk_for_block_device example_env ''/dev/sda1'' = ''/dev/sda''"
proof -
  have a: "realpath example_env (base_disk_for_block_device example_env ''/dev/sda1'')
     = base_disk_for_block_device example_env ''/dev/sda1''"
    by (rule example_realpath)
  have n: "newline \<notin> set (realpath example_env ''/dev/sda1'')"
    by (simp add: example_realpath)
  note t = base_disk_idempotent_when_canonical[OF a n]
  show ?thesis
    by (intro conjI) (rule a n t[THEN conjunct1] example_base_disk_sda(1))+
qed


section \<open>The rotational classifier\<close>

text \<open>
  Claim C8 says that, when the metadata-flag file exists, \<open>is_rotational\<close> returns true,
  returns false or raises \<open>Unknown value in ...\<close>, and that the read step has no other
  outcome. It has: \<open>open\<close> and \<open>read\<close> are not guarded, and for a flag path that exists and is
  a directory, or holds bytes that are no text, or may not be read, their exception is the
  outcome of \<open>is_rotational\<close>.
\<close>

theorem read_step_raises_counterexample:
  "file_text unreadable_env (rotational_file_of ''/dev/sda'') = Some Directory
   \<and> is_rotational unreadable_env ''/dev/sda''
       = Inl (IsADirectoryError ''/sys/block/sda/queue/rotational'')
   \<and> file_text unreadable_env (rotational_file_of ''/dev/sdb'') = Some Undecodable
   \<and> is_rotational unreadable_env ''/dev/sdb'' = Inl UnicodeDecodeError
   \<and> file_text unreadable_env (rotational_file_of ''/dev/sdc'') = Some Denied
   \<and> is_rotational unreadable_env ''/dev/sdc''
       = Inl (PermissionError ''/sys/block/sdc/queue/rotational'')"
proof -
  have "recursion_limit unreadable_env = 1000"
    by (simp add: unreadable_env_def example_env_def)
  then show ?thesis
    by (simp add: is_rotational_def is_rotational_depth_pos read_flag_def unreadable_env_def
          rotational_file_of_def basename_def)
qed

text \<open>
  Claim C8, amended. When the metadata-flag file exists, \<open>is_rotational\<close> does not look for
  another file, and its outcome is that of opening the file and reading one character. If
  that succeeds, only the first character of the file counts: the result is true for
  \<open>1\<close>, false for \<open>0\<close>, and \<open>Unknown value in ...\<close> is raised for every other content, the
  empty file included. If it fails, the exception of \<open>open\<close> or \<open>read\<close> is raised. There is
  no other outcome. (The call itself needs one level of the interpreter's stack.)
\<close>

theorem read_step_outcomes:
  assumes "file_text env (rotational_file_of block_device) = Some flag"
    and "0 < recursion_limit env"
  shows "is_rotational env block_device =
     (case flag of
        Text contents \<Rightarrow>
          (case contents of
             [] \<Rightarrow> Inl (UnrecognizedDeviceFlag (rotational_file_of block_device))
           | c # _ \<Rightarrow>
               if c = CHR ''1'' then Inr True
               else if c = CHR ''0'' then Inr False
               else Inl (UnrecognizedDeviceFlag (rotational_file_of block_device)))
      | Directory \<Rightarrow> Inl (IsADirectoryError (rotational_file_of block_device))
      | Denied \<Rightarrow> Inl (PermissionError (rotational_file_of block_device))
      | Faulty \<Rightarrow> Inl (OSError (rotational_file_of block_device))
      | Undecodable \<Rightarrow> Inl UnicodeDecodeError)"
proof (cases flag)
  case (Text contents)
  with assms show ?thesis
    by (cases contents) (simp_all add: is_rotational_def is_rotational_depth_pos read_flag_def)
qed (use assms in \<open>simp_all add: is_rotational_def is_rotational_depth_pos read_flag_def\<close>)

theorem read_step_outcomes_witness:
  "file_text example_env (rotational_file_of ''/dev/sda'') = Some (Text (''0'' @ [newline]))
   \<and> 0 < recursion_limit example_env
   \<and> is_rotational example_env ''/dev/sda'' = Inr False"
proof -
  have l: "0 < recursion_limit example_env"
    by (simp add: example_limit)
  from read_step_outcomes[OF example_files(2) l] example_files(2) l show ?thesis
    by simp
qed

text \<open>
  Claim C2 says that the fallback of \<open>is_rotational\<close> is one retry at most and that
  the function returns on every input. The function calls itself on the re-resolved
  path whenever that path differs, without counting: for \<open>/dev/vol1\<close> in \<open>chain_env\<close> it
  looks for the flag files of \<open>vol1\<close>, \<open>vol\<close> and \<open>sda\<close>, so that two nested calls do
  not suffice and three do.
\<close>

theorem two_retries_counterexample:
  "base_disk_for_block_device chain_env ''/dev/vol1'' = ''/dev/vol''
   \<and> base_disk_for_block_device chain_env ''/dev/vol'' = ''/dev/sda''
   \<and> is_rotational_depth 2 chain_env ''/dev/vol1'' = Inl RecursionError
   \<and> is_rotational_depth 3 chain_env ''/dev/vol1'' = Inr False
   \<and> is_rotational chain_env ''/dev/vol1'' = Inr False"
proof -
  have "recursion_limit chain_env = 1000"
    by (simp add: chain_env_def)
  then show ?thesis
    by (simp add: is_rotational_def is_rotational_depth_pos read_flag_def chain_base_disk
          chain_files)
qed

text \<open>
  In \<open>cycle_env\<close> the re-resolved path alternates between \<open>/dev/p\<close> and \<open>/dev/q\<close>: no
  depth of the interpreter's stack suffices.
\<close>

lemma cycle_base_disk:
  "base_disk_for_block_device cycle_env ''/dev/p'' = ''/dev/q''"
  "base_disk_for_block_device cycle_env ''/dev/q'' = ''/dev/p''"
  by (simp_all add: base_disk_for_block_device_def cycle_env_def strip_digits_chain)

lemma cycle_never_returns:
  "is_rotational_depth n cycle_env ''/dev/p'' = Inl RecursionError
   \<and> is_rotational_depth n cycle_env ''/dev/q'' = Inl RecursionError"
proof (induction n)
  case 0
  show ?case by simp
next
  case (Suc n)
  have "file_text cycle_env f = None" for f
    by (simp add: cycle_env_def)
  with Suc show ?case
    by (simp add: is_rotational_depth_pos cycle_base_disk)
qed

text \<open>
  Claim C2, amended. When base-disk resolution is idempotent at the path, the fallback
  is one retry at most: \<open>is_rotational\<close> looks for the flag file of the path and, when
  that is absent and the re-resolved path differs, for the flag file of the re-resolved
  path, and nowhere else. It raises \<open>Could not find file ...\<close> when the flag file is absent
  and the re-resolved path equals the path. Two nested calls suffice, whatever the depth
  the interpreter allows beyond them.
\<close>

theorem one_retry_when_idempotent:
  assumes "base_disk_for_block_device env (base_disk_for_block_device env block_device)
             = base_disk_for_block_device env block_device"
  shows "is_rotational_depth (Suc (Suc n)) env block_device =
     (case file_text env (rotational_file_of block_device) of
        Some flag \<Rightarrow> read_flag (rotational_file_of block_device) flag
      | None \<Rightarrow>
          if base_disk_for_block_device env block_device = block_device
          then Inl (DeviceMetadataNotFound (rotational_file_of block_device))
          else (case file_text env
                       (rotational_file_of (base_disk_for_block_device env block_device)) of
                  Some flag \<Rightarrow>
                    read_flag (rotational_file_of (base_disk_for_block_device env block_device)) flag
                | None \<Rightarrow>
                    Inl (DeviceMetadataNotFound
                          (rotational_file_of (base_disk_for_block_device env block_device)))))
     \<and> is_rotational_depth (Suc (Suc n)) env block_device \<noteq> Inl RecursionError"
  using assms
  by (simp add: is_rotational_depth_pos read_flag_returns split: option.split)

theorem one_retry_when_idempotent_witness:
  "base_disk_for_block_device example_env (base_disk_for_block_device example_env ''/dev/sda1'')
     = base_disk_for_block_device example_env ''/dev/sda1''
   \<and> is_rotational_depth 2 example_env ''/dev/sda1'' = Inr False
   \<and> base_disk_for_block_device example_env (base_disk_for_block_device example_env ''/dev/sdc1'')
     = base_disk_for_block_device example_env ''/dev/sdc1''
   \<and> is_rotational_depth 2 example_env ''/dev/sdc1''
     = Inl (DeviceMetadataNotFound (rotational_file_of ''/dev/sdc''))"
proof -
  have a: "base_disk_for_block_device example_env (base_disk_for_block_device example_env ''/dev/sda1'')
     = base_disk_for_block_device example_env ''/dev/sda1''"
    by (simp add: example_base_disk_sda)
  have c: "base_disk_for_block_device example_env (base_disk_for_block_device example_env ''/dev/sdc1'')
     = base_disk_for_block_device example_env ''/dev/sdc1''"
    by (simp add: example_base_disk_sda)
  have f: "file_text example_env (rotational_file_of ''/dev/sda1'') = None"
    "file_text example_env (rotational_file_of ''/dev/sda'') = Some (Text (''0'' @ [newline]))"
    "file_text example_env (rotational_file_of ''/dev/sdc1'') = None"
    "file_text example_env (rotational_file_of ''/dev/sdc'') = None"
    by (simp_all add: example_env_def rotational_file_of_def basename_def)
  have two: "Suc (Suc 0) = 2"
    by simp
  from one_retry_when_idempotent[OF a, of 0] one_retry_when_idempotent[OF c, of 0] a c
  show ?thesis
    unfolding two by (simp add: example_base_disk_sda f read_flag_def)
qed


section \<open>The pool-status fetcher\<close>





section \<open>The device-list parser\<close>

lemma device_line_prefix:
  assumes "device_line l"
  shows "take 5 l = ''/dev/''"
proof -
  from assms obtain d r where l: "l = d @ r" and d: "take 5 d = ''/dev/''"
    unfolding device_line_def device_path_def by blast
  from d have "length (take 5 d) = 5"
    by simp
  then have "5 \<le> length d"
    by simp
  with l d show ?thesis
    by simp
qed

lemma extract_devices_line:
  assumes "newline \<notin> set l"
  shows "extract_devices l = (if device_line l then [first_token l] else [])"
  using extract_devices_lines[of "[l]"] assms by simp

lemma example_device_line: "device_line ''/dev/sda ONLINE 0 0 0''"
  unfolding device_line_def
  by (intro exI[of _ "''/dev/sda''"] exI[of _ "''ONLINE''"] exI[of _ "''0''"])
     (simp add: device_path_def path_char_def is_letter_def is_digit_def states_def number_def)

text \<open>
  Claim C6. A line (a text without newline) is matched by the pattern of
  \<open>block_devices_for_pool\<close> if and only if it has the shape
  \<open><device-path> <state> <n1> <n2> <n3>\<close> of \<open>device_line\<close>, and the device path is then
  what the parser returns for it: \<open>/dev/sda ONLINE 0 0 0\<close> yields \<open>/dev/sda\<close>, and
  \<open>pool1 ONLINE 0 0 0\<close> yields nothing.
\<close>

theorem line_grammar:
  assumes "newline \<notin> set l"
  shows "extract_devices l = (if device_line l then [first_token l] else [])
     \<and> (extract_devices l \<noteq> [] \<longleftrightarrow> device_line l)
     \<and> set states = {''DEGRADED'', ''FAULTED'', ''OFFLINE'', ''ONLINE'', ''REMOVED'', ''UNAVAIL''}"
  using extract_devices_line[OF assms] by (simp add: states_def)

theorem line_grammar_witness:
  "newline \<notin> set ''/dev/sda ONLINE 0 0 0''
   \<and> device_line ''/dev/sda ONLINE 0 0 0''
   \<and> extract_devices ''/dev/sda ONLINE 0 0 0'' = [''/dev/sda'']
   \<and> newline \<notin> set ''pool1 ONLINE 0 0 0''
   \<and> \<not> device_line ''pool1 ONLINE 0 0 0''
   \<and> extract_devices ''pool1 ONLINE 0 0 0'' = []"
proof -
  have a: "newline \<notin> set ''/dev/sda ONLINE 0 0 0''"
    by simp
  have b: "newline \<notin> set ''pool1 ONLINE 0 0 0''"
    by simp
  have nb: "\<not> device_line ''pool1 ONLINE 0 0 0''"
    using device_line_prefix[of "''pool1 ONLINE 0 0 0''"] by auto
  have "first_token ''/dev/sda ONLINE 0 0 0'' = ''/dev/sda''"
    by (simp add: first_token_def)
  with line_grammar[OF a] line_grammar[OF b] example_device_line nb a b show ?thesis
    by simp
qed

text \<open>
  Claim C10. The part of the device path after \<open>/dev/\<close> may be empty: a line
  \<open>/dev/ <state> <n1> <n2> <n3>\<close> is matched and \<open>/dev/\<close> is returned as a device path.
\<close>

theorem empty_path_suffix:
  assumes "st \<in> set states" and "number n1" and "number n2" and "number n3"
  shows "extract_devices (''/dev/ '' @ st @ '' '' @ n1 @ '' '' @ n2 @ '' '' @ n3) = [''/dev/'']"
proof -
  let ?l = "''/dev/'' @ '' '' @ st @ '' '' @ n1 @ '' '' @ n2 @ '' '' @ n3"
  have dp: "device_path ''/dev/''"
    by (simp add: device_path_def path_char_def is_letter_def)
  with assms have dl: "device_line ?l"
    unfolding device_line_def by blast
  then have "newline \<notin> set ?l"
    by (rule device_line_no_newline)
  from extract_devices_line[OF this] dl have "extract_devices ?l = [first_token ?l]"
    by (simp only: if_True)
  also have "first_token ?l = ''/dev/''"
    using dp by (intro device_line_first_token[of _ _ "st @ '' '' @ n1 @ '' '' @ n2 @ '' '' @ n3"]) simp
  finally show ?thesis
    by simp
qed

theorem empty_path_suffix_witness:
  "''ONLINE'' \<in> set states \<and> number ''0''
   \<and> extract_devices ''/dev/ ONLINE 0 0 0'' = [''/dev/'']"
proof -
  have s: "''ONLINE'' \<in> set states"
    by (simp add: states_def)
  have n: "number ''0''"
    by (simp add: number_def is_digit_def)
  from empty_path_suffix[OF s n n n] s n show ?thesis
    by simp
qed

subsection \<open>The lines of a text\<close>

lemma split_not_Nil: "split c s \<noteq> []"
  by (induction s) (auto split: list.split)

lemma split_Cons:
  "split c (x # xs) = (if x = c then [] # split c xs
                       else (x # hd (split c xs)) # tl (split c xs))"
  using split_not_Nil[of c xs] by (cases "split c xs") auto

lemma join_split: "join [c] (split c s) = s"
proof (induction s)
  case Nil
  show ?case by simp
next
  case (Cons x xs)
  obtain p ps where ps: "split c xs = p # ps"
    using split_not_Nil[of c xs] by (cases "split c xs") auto
  with Cons show ?case
    by (cases ps) auto
qed

lemma split_no_sep: "p \<in> set (split c s) \<Longrightarrow> c \<notin> set p"
proof (induction s arbitrary: p)
  case Nil
  then show ?case by simp
next
  case (Cons x xs)
  obtain q qs where qs: "split c xs = q # qs"
    using split_not_Nil[of c xs] by (cases "split c xs") auto
  with Cons.IH have "c \<notin> set q" "\<And>r. r \<in> set qs \<Longrightarrow> c \<notin> set r"
    by auto
  with Cons.prems qs show ?case
    by (auto split: if_splits)
qed

lemma split_append_sep: "c \<notin> set l \<Longrightarrow> split c (l @ c # r) = l # split c r"
proof (induction l)
  case Nil
  then show ?case
    using split_not_Nil[of c r] by (cases "split c r") auto
next
  case (Cons x xs)
  then show ?case by auto
qed

lemma split_no_occurrence: "c \<notin> set l \<Longrightarrow> split c l = [l]"
  by (induction l) auto

lemma split_join:
  "ls \<noteq> [] \<Longrightarrow> \<forall>l \<in> set ls. c \<notin> set l \<Longrightarrow> split c (join [c] ls) = ls"
proof (induction "[c]" ls rule: join.induct)
  case 1
  then show ?case by simp
next
  case (2 p)
  then show ?case by (simp add: split_no_occurrence)
next
  case (3 p q ps)
  then show ?case by (simp add: split_append_sep)
qed

lemma concat_filter_map:
  "concat (map (\<lambda>l. if P l then [f l] else []) ls) = map f (filter P ls)"
  by (induction ls) auto

lemma strip_subset: "set (strip l) \<subseteq> set l"
proof -
  have "set (dropWhile isspace (rev (dropWhile isspace l))) \<subseteq> set (rev (dropWhile isspace l))"
    using set_dropWhileD by fastforce
  also have "\<dots> \<subseteq> set l"
    using set_dropWhileD by fastforce
  finally show ?thesis
    by (simp add: strip_def)
qed

lemma normalize_lines:
  "\<exists>ls. ls \<noteq> [] \<and> (\<forall>l \<in> set ls. newline \<notin> set l) \<and> normalize_status s = join [newline] ls"
proof -
  define t where "t = re_sub False (Plus (Lit '' '')) '' '' (re_sub False (Plus (Lit [tab])) '' '' s)"
  have "normalize_status s = join [newline] (map strip (split newline t))"
    by (simp add: normalize_status_def t_def)
  moreover have "map strip (split newline t) \<noteq> []"
    by (simp add: split_not_Nil)
  moreover have "\<forall>l \<in> set (map strip (split newline t)). newline \<notin> set l"
    using split_no_sep[of _ newline t] strip_subset by fastforce
  ultimately show ?thesis
    by blast
qed

lemma extract_devices_normalize:
  "extract_devices (normalize_status s)
     = map first_token (filter device_line (split newline (normalize_status s)))"
proof -
  from normalize_lines[of s] obtain ls where ls: "ls \<noteq> []" "\<forall>l \<in> set ls. newline \<notin> set l"
    "normalize_status s = join [newline] ls"
    by blast
  then have "split newline (normalize_status s) = ls"
    by (simp add: split_join)
  with extract_devices_lines[OF ls(2)] ls(3) show ?thesis
    by (simp add: concat_filter_map)
qed

lemma config_line:
  "normalize_status ''config:'' = ''config:''"
  "split newline ''config:'' = [''config:'']"
  by code_simp+

subsection \<open>The normalisation of the status text\<close>

lemma plus_lit_match:
  "match_at ml (Plus (Lit [c])) False (pre, rest) =
     (case rest of
        [] \<Rightarrow> None
      | x # xs \<Rightarrow>
          if x = c
          then Some (pre @ takeWhile (\<lambda>y. y = c) (x # xs), dropWhile (\<lambda>y. y = c) (x # xs), [])
          else None)"
proof (cases rest)
  case Nil
  then show ?thesis
    by (simp add: match_at_False plus_single[OF single_Lit] del: rmatch.simps)
next
  case (Cons x xs)
  show ?thesis
  proof (cases "x = c")
    case True
    from plus_single_hd[OF single_Lit, of x c ml pre xs "[]"] True obtain ts where
      "rmatch ml (Plus (Lit [c])) (pre, x # xs, [])
         = (pre @ takeWhile (\<lambda>y. y = c) (x # xs), dropWhile (\<lambda>y. y = c) (x # xs), []) # ts"
      by blast
    with True Cons show ?thesis
      by (simp add: match_at_False del: rmatch.simps)
  next
    case False
    with Cons show ?thesis
      by (simp add: match_at_False plus_single[OF single_Lit] del: rmatch.simps)
  qed
qed

lemma sub_plus_lit_from:
  "concat (map (case_sum (\<lambda>c. [c]) (\<lambda>m. '' ''))
     (scan ml (Plus (Lit [c])) False (pre, rest))) = collapse_runs c rest"
proof (induction c rest arbitrary: pre rule: collapse_runs.induct)
  case (1 c)
  show ?case
    by (subst scan.simps) (simp add: plus_lit_match del: scan.simps)
next
  case (2 c x xs)
  show ?case
  proof (cases "x = c")
    case True
    have "scan ml (Plus (Lit [c])) False (pre, x # xs)
            = Inr (pre @ takeWhile (\<lambda>y. y = c) (x # xs), dropWhile (\<lambda>y. y = c) (x # xs), [])
              # scan ml (Plus (Lit [c])) False
                  (pre @ takeWhile (\<lambda>y. y = c) (x # xs), dropWhile (\<lambda>y. y = c) xs)"
    proof -
      have "length (dropWhile (\<lambda>y. y = c) xs) \<noteq> Suc (length xs)"
        using length_dropWhile_le[of "\<lambda>y. y = c" xs] by simp
      with True show ?thesis
        by (subst scan.simps) (simp add: plus_lit_match del: scan.simps)
    qed
    with True 2(1)[OF True] show ?thesis
      by (simp del: scan.simps)
  next
    case False
    have "scan ml (Plus (Lit [c])) False (pre, x # xs)
            = Inl x # scan ml (Plus (Lit [c])) False (pre @ [x], xs)"
      using False by (subst scan.simps) (simp add: plus_lit_match del: scan.simps)
    with False 2(2)[OF False] show ?thesis
      by (simp del: scan.simps)
  qed
qed

lemma sub_plus_lit: "re_sub ml (Plus (Lit [c])) '' '' s = collapse_runs c s"
  by (simp add: re_sub_def sub_plus_lit_from del: scan.simps)

lemma normalize_collapse:
  "normalize_status s = join [newline]
     (map strip (split newline (collapse_runs (CHR '' '') (collapse_runs tab s))))"
  by (simp add: normalize_status_def sub_plus_lit)


lemma collapse_runs_notin: "c \<notin> set s \<Longrightarrow> collapse_runs c s = s"
  by (induction s) auto

lemma collapse_runs_subset: "set (collapse_runs c s) \<subseteq> insert (CHR '' '') (set s - {c})"
proof (induction c s rule: collapse_runs.induct)
  case (1 c)
  show ?case by simp
next
  case (2 c x xs)
  have "set (dropWhile (\<lambda>y. y = c) xs) \<subseteq> set xs"
    using set_dropWhileD by fastforce
  with 2 show ?case
    by (cases "x = c") auto
qed

lemma single_spaced_Cons:
  "single_spaced (x # s) \<longleftrightarrow> single_spaced s \<and> (x \<noteq> CHR '' '' \<or> no_space_first s)"
  by (cases s) (auto simp: no_space_first_def)

lemma no_space_first_dropWhile: "no_space_first (dropWhile (\<lambda>y. y = CHR '' '') s)"
  unfolding no_space_first_def using hd_dropWhile[of "\<lambda>y. y = CHR '' ''" s] by blast

lemma no_space_first_collapse:
  "no_space_first s \<Longrightarrow> no_space_first (collapse_runs (CHR '' '') s)"
  by (cases s) (auto simp: no_space_first_def)

lemma single_spaced_collapse: "single_spaced (collapse_runs (CHR '' '') s)"
proof (induction "CHR '' ''" s rule: collapse_runs.induct)
  case 1
  show ?case by simp
next
  case (2 x xs)
  show ?case
  proof (cases "x = CHR '' ''")
    case True
    with 2(1) no_space_first_collapse[OF no_space_first_dropWhile, of xs] show ?thesis
      by (simp add: single_spaced_Cons)
  next
    case False
    with 2(2) show ?thesis
      by (simp add: single_spaced_Cons)
  qed
qed

lemma single_spaced_fixed: "single_spaced s \<Longrightarrow> collapse_runs (CHR '' '') s = s"
proof (induction s)
  case Nil
  show ?case by simp
next
  case (Cons x xs)
  then have xs: "collapse_runs (CHR '' '') xs = xs" and "x \<noteq> CHR '' '' \<or> no_space_first xs"
    by (simp_all add: single_spaced_Cons)
  then have "x = CHR '' '' \<Longrightarrow> dropWhile (\<lambda>y. y = CHR '' '') xs = xs"
    by (cases xs) (auto simp: no_space_first_def)
  with xs show ?case
    by simp
qed

lemma single_spaced_append:
  "single_spaced (a @ b) \<Longrightarrow> single_spaced a \<and> single_spaced b"
proof (induction a)
  case Nil
  then show ?case by simp
next
  case (Cons x a)
  then have "single_spaced (a @ b)" and h: "x \<noteq> CHR '' '' \<or> no_space_first (a @ b)"
    by (simp_all add: single_spaced_Cons)
  with Cons.IH have "single_spaced a" "single_spaced b"
    by simp_all
  moreover from h have "x \<noteq> CHR '' '' \<or> no_space_first a"
    by (cases a) (auto simp: no_space_first_def)
  ultimately show ?case
    by (simp add: single_spaced_Cons)
qed

lemma single_spaced_sep:
  "single_spaced a \<Longrightarrow> single_spaced b \<Longrightarrow> x \<noteq> CHR '' '' \<Longrightarrow> single_spaced (a @ x # b)"
proof (induction a)
  case Nil
  then show ?case by (simp add: single_spaced_Cons)
next
  case (Cons y a)
  then have "single_spaced (a @ x # b)" and h: "y \<noteq> CHR '' '' \<or> no_space_first a"
    by (simp_all add: single_spaced_Cons)
  moreover from h Cons.prems(3) have "y \<noteq> CHR '' '' \<or> no_space_first (a @ x # b)"
    by (cases a) (auto simp: no_space_first_def)
  ultimately show ?case
    by (simp add: single_spaced_Cons)
qed

lemma single_spaced_strip: "single_spaced l \<Longrightarrow> single_spaced (strip l)"
proof -
  assume l: "single_spaced l"
  define m where "m = dropWhile isspace l"
  have "l = takeWhile isspace l @ m"
    by (simp add: m_def)
  with l have m: "single_spaced m"
    using single_spaced_append by metis
  have "rev m = takeWhile isspace (rev m) @ dropWhile isspace (rev m)"
    by simp
  then have "m = rev (dropWhile isspace (rev m)) @ rev (takeWhile isspace (rev m))"
    by (metis rev_append rev_rev_ident)
  with m have "single_spaced (rev (dropWhile isspace (rev m)))"
    using single_spaced_append by metis
  then show ?thesis
    by (simp add: strip_def m_def)
qed

lemma split_hd_prefix: "\<exists>r. s = hd (split c s) @ r"
proof (induction s)
  case Nil
  show ?case by simp
next
  case (Cons x xs)
  then obtain r where "xs = hd (split c xs) @ r"
    by blast
  then have "x # xs = (x # hd (split c xs)) @ r"
    by simp
  then show ?case
    unfolding split_Cons by (cases "x = c") auto
qed

lemma single_spaced_split:
  "single_spaced s \<Longrightarrow> l \<in> set (split c s) \<Longrightarrow> single_spaced l"
proof (induction s arbitrary: l)
  case Nil
  then show ?case by simp
next
  case (Cons x xs)
  from Cons.prems(1) have xs: "single_spaced xs"
    by (simp add: single_spaced_Cons)
  have rest: "single_spaced p" if "p \<in> set (split c xs)" for p
    using Cons.IH[OF xs that] .
  show ?case
  proof (cases "x = c")
    case True
    with Cons.prems(2) have "l = [] \<or> l \<in> set (split c xs)"
      by (simp add: split_Cons del: split.simps)
    with rest show ?thesis
      by auto
  next
    case False
    with Cons.prems(2) have "l = x # hd (split c xs) \<or> l \<in> set (tl (split c xs))"
      by (simp add: split_Cons del: split.simps)
    then show ?thesis
    proof
      assume l: "l = x # hd (split c xs)"
      from split_hd_prefix[of xs c] obtain r where "x # xs = (x # hd (split c xs)) @ r"
        by auto
      with Cons.prems(1) have "single_spaced (x # hd (split c xs))"
        using single_spaced_append by metis
      with l show ?thesis
        by simp
    next
      assume "l \<in> set (tl (split c xs))"
      then have "l \<in> set (split c xs)"
        by (rule list.set_sel(2)[rotated]) (simp add: split_not_Nil)
      then show ?thesis
        by (rule rest)
    qed
  qed
qed

lemma single_spaced_join:
  "\<forall>l \<in> set ls. single_spaced l \<Longrightarrow> single_spaced (join [newline] ls)"
proof (induction "[newline]" ls rule: join.induct)
  case 1
  show ?case by simp
next
  case (2 p)
  then show ?case by simp
next
  case (3 p q ps)
  then show ?case
    by (simp add: single_spaced_sep)
qed


lemma dropWhile_fixed: "xs = [] \<or> \<not> P (hd xs) \<Longrightarrow> dropWhile P xs = xs"
  by (cases xs) auto

lemma strip_idem: "strip (strip l) = strip l"
proof -
  define m where "m = dropWhile isspace l"
  define k where "k = rev (dropWhile isspace (rev m))"
  have k: "strip l = k"
    by (simp add: strip_def m_def k_def)
  have m: "m = [] \<or> \<not> isspace (hd m)"
    unfolding m_def using hd_dropWhile[of isspace l] by blast
  have "rev m = takeWhile isspace (rev m) @ dropWhile isspace (rev m)"
    by simp
  then have mk: "m = k @ rev (takeWhile isspace (rev m))"
    unfolding k_def by (metis rev_append rev_rev_ident)
  have "k = [] \<or> \<not> isspace (hd k)"
  proof (cases k)
    case Nil
    then show ?thesis by simp
  next
    case (Cons a as)
    with mk have "m \<noteq> []" "hd m = hd k"
      by (metis append_is_Nil_conv list.distinct(1), metis hd_append2 list.distinct(1))
    with m show ?thesis
      by simp
  qed
  then have front: "dropWhile isspace k = k"
    by (rule dropWhile_fixed)
  have "rev k = [] \<or> \<not> isspace (hd (rev k))"
    unfolding k_def using hd_dropWhile[of isspace "rev m"] by auto
  then have "dropWhile isspace (rev k) = rev k"
    by (rule dropWhile_fixed)
  with front have "strip k = k"
    by (simp add: strip_def)
  with k show ?thesis
    by simp
qed

lemma split_subset: "p \<in> set (split c s) \<Longrightarrow> set p \<subseteq> set s"
proof (induction s arbitrary: p)
  case Nil
  then show ?case by simp
next
  case (Cons x xs)
  obtain q qs where qs: "split c xs = q # qs"
    using split_not_Nil[of c xs] by (cases "split c xs") auto
  with Cons.IH have "set q \<subseteq> set xs" "\<And>r. r \<in> set qs \<Longrightarrow> set r \<subseteq> set xs"
    by auto
  with Cons.prems qs show ?case
    by (auto split: if_splits)
qed

lemma join_subset: "set (join sep ls) \<subseteq> set sep \<union> \<Union> (set ` set ls)"
  by (induction sep ls rule: join.induct) auto

lemma normalize_no_tab: "tab \<notin> set (normalize_status s)"
proof -
  define t1 where "t1 = collapse_runs tab s"
  define t2 where "t2 = collapse_runs (CHR '' '') t1"
  have "tab \<notin> set t1"
    using collapse_runs_subset[of tab s] unfolding t1_def by auto
  then have t2: "tab \<notin> set t2"
    using collapse_runs_subset[of "CHR '' ''" t1] unfolding t2_def by auto
  have "tab \<notin> set l" if "l \<in> set (map strip (split newline t2))" for l
  proof -
    from that obtain p where "p \<in> set (split newline t2)" "l = strip p"
      by auto
    with split_subset[of p newline t2] strip_subset[of p] t2 show ?thesis
      by auto
  qed
  then have "tab \<notin> set (join [newline] (map strip (split newline t2)))"
    using join_subset[of "[newline]" "map strip (split newline t2)"] by auto
  then show ?thesis
    by (simp add: normalize_collapse t1_def t2_def)
qed

lemma normalize_single_spaced: "single_spaced (normalize_status s)"
proof -
  define t2 where "t2 = collapse_runs (CHR '' '') (collapse_runs tab s)"
  have "single_spaced t2"
    unfolding t2_def by (rule single_spaced_collapse)
  then have "\<forall>l \<in> set (map strip (split newline t2)). single_spaced l"
    using single_spaced_split single_spaced_strip by auto
  then show ?thesis
    unfolding normalize_collapse t2_def[symmetric] by (rule single_spaced_join)
qed

lemma normalize_lines_stripped:
  "map strip (split newline (normalize_status s)) = split newline (normalize_status s)"
proof -
  define ls where "ls = map strip (split newline (collapse_runs (CHR '' '') (collapse_runs tab s)))"
  have n: "normalize_status s = join [newline] ls"
    by (simp add: normalize_collapse ls_def)
  have ls: "ls \<noteq> []" "\<forall>l \<in> set ls. newline \<notin> set l"
    using split_no_sep[of _ newline] strip_subset
    by (auto simp: ls_def split_not_Nil)
  have "split newline (normalize_status s) = ls"
    unfolding n using ls by (rule split_join)
  moreover have "map strip ls = ls"
    by (simp add: ls_def strip_idem)
  ultimately show ?thesis
    by simp
qed

lemma normalize_idem: "normalize_status (normalize_status s) = normalize_status s"
proof -
  have "collapse_runs (CHR '' '') (collapse_runs tab (normalize_status s)) = normalize_status s"
    by (simp add: collapse_runs_notin[OF normalize_no_tab]
        single_spaced_fixed[OF normalize_single_spaced])
  then have "normalize_status (normalize_status s) = join [newline] (map strip (split newline (normalize_status s)))"
    by (simp add: normalize_collapse[of "normalize_status s"])
  also have "\<dots> = join [newline] (split newline (normalize_status s))"
    by (simp only: normalize_lines_stripped)
  also have "\<dots> = normalize_status s"
    by (rule join_split)
  finally show ?thesis .
qed

lemma whitespace_example:
  "extract_devices (normalize_status (tab # ''/dev/sdb'' @ tab # ''DEGRADED   3  0   1'')) = [''/dev/sdb'']"
  "extract_devices (normalize_status ''/dev/sdb DEGRADED 3 0 1'') = [''/dev/sdb'']"
  "normalize_status (tab # ''/dev/sdb'' @ tab # ''DEGRADED   3  0   1'') = ''/dev/sdb DEGRADED 3 0 1''"
  by code_simp+

text \<open>
  Claim C7. The normalisation replaces every run of tabs by one space, then every run
  of spaces by one space, then trims every line. Its result is in normal form (no tab,
  no two adjacent spaces, every line trimmed), and a text in this form is left as it
  is; so a raw text and its normal form are parsed to the same list. The line
  \<open>\t/dev/sdb\tDEGRADED   3  0   1\<close> has the normal form \<open>/dev/sdb DEGRADED 3 0 1\<close>.
\<close>

theorem whitespace_tolerant:
  "normalize_status s = join [newline]
     (map strip (split newline (collapse_runs (CHR '' '') (collapse_runs tab s))))
   \<and> tab \<notin> set (normalize_status s)
   \<and> single_spaced (normalize_status s)
   \<and> map strip (split newline (normalize_status s)) = split newline (normalize_status s)
   \<and> normalize_status (normalize_status s) = normalize_status s
   \<and> extract_devices (normalize_status (normalize_status s)) = extract_devices (normalize_status s)
   \<and> normalize_status (tab # ''/dev/sdb'' @ tab # ''DEGRADED   3  0   1'') = ''/dev/sdb DEGRADED 3 0 1''
   \<and> extract_devices (normalize_status (tab # ''/dev/sdb'' @ tab # ''DEGRADED   3  0   1''))
       = extract_devices (normalize_status ''/dev/sdb DEGRADED 3 0 1'')"
  using normalize_collapse[of s] normalize_no_tab[of s] normalize_single_spaced[of s]
    normalize_lines_stripped[of s] normalize_idem[of s] whitespace_example
  by simp

theorem whitespace_tolerant_witness:
  "normalize_status (normalize_status (tab # ''/dev/sdb'' @ tab # ''DEGRADED   3  0   1''))
     = ''/dev/sdb DEGRADED 3 0 1''
   \<and> extract_devices (normalize_status (tab # ''/dev/sdb'' @ tab # ''DEGRADED   3  0   1''))
     = [''/dev/sdb'']"
proof -
  note t = whitespace_tolerant[of "tab # ''/dev/sdb'' @ tab # ''DEGRADED   3  0   1''"]
  from t have a: "normalize_status (normalize_status (tab # ''/dev/sdb'' @ tab # ''DEGRADED   3  0   1''))
     = normalize_status (tab # ''/dev/sdb'' @ tab # ''DEGRADED   3  0   1'')"
    by (elim conjE)
  from t have b: "extract_devices (normalize_status (tab # ''/dev/sdb'' @ tab # ''DEGRADED   3  0   1''))
       = extract_devices (normalize_status ''/dev/sdb DEGRADED 3 0 1'')"
    by (elim conjE)
  from a whitespace_example(3) have c: "normalize_status
      (normalize_status (tab # ''/dev/sdb'' @ tab # ''DEGRADED   3  0   1''))
     = ''/dev/sdb DEGRADED 3 0 1''"
    by (rule trans)
  from b whitespace_example(2) have d: "extract_devices
      (normalize_status (tab # ''/dev/sdb'' @ tab # ''DEGRADED   3  0   1'')) = [''/dev/sdb'']"
    by (rule trans)
  from c d show ?thesis
    by (rule conjI)
qed

text \<open>
  Claim C9. For every status text the parser returns the device paths of the matching
  lines of the normalised text, in the order of the lines and as often as they occur.
  It raises nothing: the empty text, and a text none of whose lines matches, give the
  empty list, and \<open>block_devices_for_pool\<close> returns the list whenever \<open>zpool_status\<close>
  returned a text.
\<close>

theorem parser_file_order:
  "extract_devices (normalize_status status_str)
     = map first_token (filter device_line (split newline (normalize_status status_str)))
   \<and> extract_devices (normalize_status []) = []
   \<and> (extract_devices (normalize_status status_str) = []
        \<longleftrightarrow> (\<forall>l \<in> set (split newline (normalize_status status_str)). \<not> device_line l))
   \<and> (zpool_status env pool (- 1) = Inr (Some status_str)
        \<longrightarrow> block_devices_for_pool env pool
             = Inr (map first_token (filter device_line (split newline (normalize_status status_str)))))"
proof (intro conjI impI)
  show "extract_devices (normalize_status status_str)
     = map first_token (filter device_line (split newline (normalize_status status_str)))"
    by (rule extract_devices_normalize)
  show "extract_devices (normalize_status []) = []"
    by code_simp
  show "extract_devices (normalize_status status_str) = []
        \<longleftrightarrow> (\<forall>l \<in> set (split newline (normalize_status status_str)). \<not> device_line l)"
    unfolding extract_devices_normalize by (simp add: filter_empty_conv)
next
  assume z: "zpool_status env pool (- 1) = Inr (Some status_str)"
  then obtain name where "pool = PStr name"
    by (cases pool) (simp_all add: zpool_status_def)
  with z show "block_devices_for_pool env pool
             = Inr (map first_token (filter device_line (split newline (normalize_status status_str))))"
    by (simp add: block_devices_for_pool_def extract_devices_normalize)
qed

theorem parser_file_order_witness:
  "zpool_status example_env (PStr ''tank'') (- 1) = Inr (Some example_status)
   \<and> block_devices_for_pool example_env (PStr ''tank'')
       = Inr (map first_token (filter device_line (split newline (normalize_status example_status))))
   \<and> split newline (normalize_status ''config:'') = [''config:'']
   \<and> \<not> device_line ''config:''
   \<and> extract_devices (normalize_status ''config:'') = []"
proof -
  have z: "zpool_status example_env (PStr ''tank'') (- 1) = Inr (Some example_status)"
    by (simp add: zpool_status_def example_env_def)
  have c: "split newline (normalize_status ''config:'') = [''config:'']"
    by (simp only: config_line)
  have n: "\<not> device_line ''config:''"
    using device_line_prefix[of "''config:''"] by auto
  note t = parser_file_order[of "''config:''" example_env "PStr ''tank''"]
  note u = parser_file_order[of example_status example_env "PStr ''tank''"]
  from t c n have "extract_devices (normalize_status ''config:'') = []"
    by simp
  moreover from u z have "block_devices_for_pool example_env (PStr ''tank'')
       = Inr (map first_token (filter device_line (split newline (normalize_status example_status))))"
    by blast
  ultimately show ?thesis
    using z c n by simp
qed


section \<open>The pool classifier\<close>

lemma comprehension_Inr: "comprehension f xs = Inr ys \<longleftrightarrow> map f xs = map Inr ys"
proof (induction xs arbitrary: ys)
  case Nil
  then show ?case by auto
next
  case (Cons x xs)
  show ?case
  proof (cases "f x")
    case (Inl e)
    then show ?thesis
      by (cases ys) auto
  next
    case fx: (Inr y)
    show ?thesis
    proof (cases "comprehension f xs")
      case (Inl e)
      with Cons.IH have "map f xs \<noteq> map Inr zs" for zs
        by auto
      with Inl fx show ?thesis
        by (cases ys) auto
    next
      case (Inr zs)
      with Cons.IH[of zs] have "map f xs = map Inr zs"
        by simp
      with Inr fx show ?thesis
        by (cases ys) (auto simp: inj_map_eq_map[OF inj_Inr])
    qed
  qed
qed

lemma comprehension_Inl: "(\<exists>e. comprehension f xs = Inl e) \<longleftrightarrow> (\<exists>x \<in> set xs. \<exists>e. f x = Inl e)"
  by (induction xs) (auto split: sum.splits)

lemma comprehension_image:
  assumes "comprehension f xs = Inr ys"
  shows "f ` set xs = Inr ` set ys"
proof -
  from assms have "map f xs = map Inr ys"
    by (simp add: comprehension_Inr)
  then have "set (map f xs) = set (map Inr ys)"
    by simp
  then show ?thesis
    by simp
qed

lemma comprehension_mem:
  assumes "comprehension f xs = Inr ys"
  shows "y \<in> set ys \<longleftrightarrow> (\<exists>x \<in> set xs. f x = Inr y)"
proof
  assume "y \<in> set ys"
  then have "Inr y \<in> f ` set xs"
    unfolding comprehension_image[OF assms] by simp
  then show "\<exists>x \<in> set xs. f x = Inr y"
    by auto
next
  assume "\<exists>x \<in> set xs. f x = Inr y"
  then have "Inr y \<in> f ` set xs"
    by (metis imageI)
  then show "y \<in> set ys"
    unfolding comprehension_image[OF assms] by auto
qed

lemma comprehension_all:
  assumes "comprehension f xs = Inr ys" and "x \<in> set xs"
  shows "\<exists>y. f x = Inr y"
proof -
  from assms(2) have "f x \<in> f ` set xs"
    by (rule imageI)
  then show ?thesis
    unfolding comprehension_image[OF assms(1)] by auto
qed

lemma comprehension_total:
  "(\<forall>x \<in> set xs. \<exists>y. f x = Inr y) \<Longrightarrow> \<exists>ys. comprehension f xs = Inr ys"
  by (induction xs) (auto split: sum.splits)

lemma is_rotational_depth_cong:
  assumes "realpath env' = realpath env" "file_text env' = file_text env"
  shows "is_rotational_depth n env' p = is_rotational_depth n env p"
proof (induction n arbitrary: p)
  case 0
  show ?case by simp
next
  case (Suc n)
  have "base_disk_for_block_device env' q = base_disk_for_block_device env q" for q
    by (simp add: base_disk_for_block_device_def assms)
  with Suc assms show ?case
    by (simp add: is_rotational_depth_pos split: option.split)
qed

lemma pure_result:
  assumes ok: "set_order_ok env"
    and dev: "block_devices_for_pool env (PStr pool) = Inr devices"
  shows "zpool_is_pure_solid_state env (PStr pool) = Inr b \<longleftrightarrow>
           (\<forall>d \<in> base_disks env devices. \<exists>r. is_rotational env d = Inr r)
           \<and> b = (\<forall>d \<in> base_disks env devices. is_rotational env d = Inr False)"
proof -
  define ds where "ds = set_order env (map (base_disk_for_block_device env) devices)"
  have set_ds: "set ds = base_disks env devices"
    using ok by (simp add: ds_def set_order_ok_def base_disks_def)
  have res: "zpool_is_pure_solid_state env (PStr pool) =
      (case comprehension (is_rotational env) ds of
         Inl e \<Rightarrow> Inl e
       | Inr rotationals \<Rightarrow> Inr (\<not> (True \<in> set rotationals)))"
    by (simp add: zpool_is_pure_solid_state_def dev ds_def)
  show ?thesis
  proof (cases "comprehension (is_rotational env) ds")
    case (Inl e)
    then have "\<exists>d \<in> set ds. \<exists>e. is_rotational env d = Inl e"
      using comprehension_Inl[of "is_rotational env" ds] by blast
    then have "\<not> (\<forall>d \<in> base_disks env devices. \<exists>r. is_rotational env d = Inr r)"
      unfolding set_ds by force
    with Inl res show ?thesis
      by simp
  next
    case (Inr rs)
    have all: "\<exists>y. is_rotational env d = Inr y" if "d \<in> set ds" for d
      using comprehension_all[OF Inr that] .
    have "True \<in> set rs \<longleftrightarrow> (\<exists>d \<in> set ds. is_rotational env d = Inr True)"
      by (rule comprehension_mem[OF Inr])
    also have "\<dots> \<longleftrightarrow> \<not> (\<forall>d \<in> set ds. is_rotational env d = Inr False)"
    proof
      assume "\<exists>d \<in> set ds. is_rotational env d = Inr True"
      then show "\<not> (\<forall>d \<in> set ds. is_rotational env d = Inr False)"
        by (metis sum.inject(2))
    next
      assume "\<not> (\<forall>d \<in> set ds. is_rotational env d = Inr False)"
      then obtain d where d: "d \<in> set ds" "is_rotational env d \<noteq> Inr False"
        by blast
      from all[OF d(1)] obtain y where "is_rotational env d = Inr y"
        by blast
      with d(2) have "is_rotational env d = Inr True"
        by (cases y) simp_all
      with d(1) show "\<exists>d \<in> set ds. is_rotational env d = Inr True"
        by blast
    qed
    finally have mem: "True \<notin> set rs \<longleftrightarrow> (\<forall>d \<in> set ds. is_rotational env d = Inr False)"
      by blast
    have "zpool_is_pure_solid_state env (PStr pool) = Inr (True \<notin> set rs)"
      using res Inr by simp
    then have "zpool_is_pure_solid_state env (PStr pool) = Inr b \<longleftrightarrow> b = (True \<notin> set rs)"
      by auto
    with mem all show ?thesis
      unfolding set_ds by blast
  qed
qed


lemma is_rotational_cong:
  assumes "realpath env' = realpath env" "file_text env' = file_text env"
    "recursion_limit env' = recursion_limit env"
  shows "is_rotational env' = is_rotational env"
  using assms by (auto simp: is_rotational_def fun_eq_iff intro: is_rotational_depth_cong)

lemma base_disks_cong:
  assumes "realpath env' = realpath env" "set devices' = set devices"
  shows "base_disks env' devices' = base_disks env devices"
proof -
  have "base_disk_for_block_device env' = base_disk_for_block_device env"
    by (simp add: fun_eq_iff base_disk_for_block_device_def assms(1))
  then show ?thesis
    by (simp add: base_disks_def assms(2))
qed

lemma pure_error:
  assumes "block_devices_for_pool env (PStr pool) = Inl e"
  shows "zpool_is_pure_solid_state env (PStr pool) = Inl e"
  using assms by (simp add: zpool_is_pure_solid_state_def)

lemma shuffled_normalize:
  "extract_devices (normalize_status shuffled_status)
     = [''/dev/sdb1'', ''/dev/sda2'', ''/dev/sda1'', ''/dev/sdb1'']"
  by code_simp

lemma shuffled_devices:
  "block_devices_for_pool shuffled_env (PStr ''tank'')
     = Inr [''/dev/sdb1'', ''/dev/sda2'', ''/dev/sda1'', ''/dev/sdb1'']"
  by (simp add: block_devices_for_pool_def zpool_status_def shuffled_env_def shuffled_normalize)

lemma shuffled_set_order: "set_order_ok shuffled_env"
  by (simp add: set_order_ok_def shuffled_env_def)

lemma example_base_disk_set:
  "base_disks example_env [''/dev/sda1'', ''/dev/sdb1'', ''/dev/sda2''] = {''/dev/sda'', ''/dev/sdb''}"
  unfolding base_disks_def image_set example_base_disks by auto

lemma mixed_devices:
  "block_devices_for_pool mixed_env (PStr ''tank'')
     = Inr [''/dev/sda1'', ''/dev/sdb1'', ''/dev/sda2'']"
  using example_devices
  by (simp add: block_devices_for_pool_def zpool_status_def mixed_env_def)

lemma mixed_base_disk_set:
  "base_disks mixed_env [''/dev/sda1'', ''/dev/sdb1'', ''/dev/sda2''] = {''/dev/sda'', ''/dev/sdb''}"
proof -
  have "realpath mixed_env = realpath example_env"
    by (simp add: mixed_env_def)
  from base_disks_cong[OF this refl] example_base_disk_set show ?thesis
    by simp
qed

lemma mixed_rot:
  "is_rotational mixed_env ''/dev/sda'' = Inr True"
  "is_rotational mixed_env ''/dev/sdb'' = Inr False"
  by (simp_all add: is_rotational_def is_rotational_depth_pos read_flag_def mixed_env_def
        example_limit rotational_file_of_def basename_def example_env_def)

text \<open>
  Claim C1. For a pool name that is a string, \<open>zpool_is_pure_solid_state\<close> returns a
  value exactly when the device list is obtained and every distinct base disk of it is
  classified, and the value is the conjunction of "not rotational" over these base
  disks; so it returns true if and only if every one of them is classified
  non-rotational. The value depends on the set of devices only: another run, on the
  same file system, whose device list has the same entries in another order or with
  other repetitions returns the same value, whatever the order in which the set of base
  disks is iterated.
\<close>

theorem pool_classifier:
  assumes "set_order_ok env"
  shows "(zpool_is_pure_solid_state env (PStr pool) = Inr b \<longleftrightarrow>
            (\<exists>devices. block_devices_for_pool env (PStr pool) = Inr devices
               \<and> (\<forall>d \<in> base_disks env devices. \<exists>r. is_rotational env d = Inr r)
               \<and> b = (\<forall>d \<in> base_disks env devices. is_rotational env d = Inr False)))
     \<and> (\<forall>env' pool' devices devices'.
            set_order_ok env' \<and> realpath env' = realpath env \<and> file_text env' = file_text env
            \<and> recursion_limit env' = recursion_limit env
            \<and> block_devices_for_pool env (PStr pool) = Inr devices
            \<and> block_devices_for_pool env' (PStr pool') = Inr devices'
            \<and> set devices' = set devices
            \<longrightarrow> (zpool_is_pure_solid_state env' (PStr pool') = Inr b
                  \<longleftrightarrow> zpool_is_pure_solid_state env (PStr pool) = Inr b))"
proof (intro conjI allI impI)
  show "zpool_is_pure_solid_state env (PStr pool) = Inr b \<longleftrightarrow>
            (\<exists>devices. block_devices_for_pool env (PStr pool) = Inr devices
               \<and> (\<forall>d \<in> base_disks env devices. \<exists>r. is_rotational env d = Inr r)
               \<and> b = (\<forall>d \<in> base_disks env devices. is_rotational env d = Inr False))"
  proof (cases "block_devices_for_pool env (PStr pool)")
    case (Inl e)
    with pure_error[OF Inl] show ?thesis
      by simp
  next
    case (Inr devices)
    with pure_result[OF assms Inr, of b] show ?thesis
      by simp
  qed
next
  fix env' pool' devices devices'
  assume h: "set_order_ok env' \<and> realpath env' = realpath env \<and> file_text env' = file_text env
            \<and> recursion_limit env' = recursion_limit env
            \<and> block_devices_for_pool env (PStr pool) = Inr devices
            \<and> block_devices_for_pool env' (PStr pool') = Inr devices'
            \<and> set devices' = set devices"
  then have ok': "set_order_ok env'"
    and rp: "realpath env' = realpath env"
    and ft: "file_text env' = file_text env"
    and rl: "recursion_limit env' = recursion_limit env"
    and dev: "block_devices_for_pool env (PStr pool) = Inr devices"
    and dev': "block_devices_for_pool env' (PStr pool') = Inr devices'"
    and same: "set devices' = set devices"
    by blast+
  have rot: "is_rotational env' = is_rotational env"
    using rp ft rl by (rule is_rotational_cong)
  have bd: "base_disks env' devices' = base_disks env devices"
    using rp same by (rule base_disks_cong)
  show "zpool_is_pure_solid_state env' (PStr pool') = Inr b
                  \<longleftrightarrow> zpool_is_pure_solid_state env (PStr pool) = Inr b"
    unfolding pure_result[OF ok' dev'] pure_result[OF assms dev] rot bd ..
qed

theorem pool_classifier_witness:
  "set_order_ok example_env
   \<and> block_devices_for_pool example_env (PStr ''tank'')
       = Inr [''/dev/sda1'', ''/dev/sdb1'', ''/dev/sda2'']
   \<and> zpool_is_pure_solid_state example_env (PStr ''tank'') = Inr True
   \<and> set_order_ok shuffled_env
   \<and> block_devices_for_pool shuffled_env (PStr ''tank'')
       = Inr [''/dev/sdb1'', ''/dev/sda2'', ''/dev/sda1'', ''/dev/sdb1'']
   \<and> zpool_is_pure_solid_state shuffled_env (PStr ''tank'') = Inr True
   \<and> set_order_ok mixed_env
   \<and> zpool_is_pure_solid_state mixed_env (PStr ''tank'') = Inr False"
proof -
  note t = pool_classifier[OF example_set_order, of "''tank''" True]
  have pure: "zpool_is_pure_solid_state example_env (PStr ''tank'') = Inr True"
    unfolding t[THEN conjunct1]
    using example_devices example_base_disk_set example_rot by auto
  have "set_order_ok shuffled_env \<and> realpath shuffled_env = realpath example_env
        \<and> file_text shuffled_env = file_text example_env
        \<and> recursion_limit shuffled_env = recursion_limit example_env
        \<and> block_devices_for_pool example_env (PStr ''tank'')
            = Inr [''/dev/sda1'', ''/dev/sdb1'', ''/dev/sda2'']
        \<and> block_devices_for_pool shuffled_env (PStr ''tank'')
            = Inr [''/dev/sdb1'', ''/dev/sda2'', ''/dev/sda1'', ''/dev/sdb1'']
        \<and> set [''/dev/sdb1'', ''/dev/sda2'', ''/dev/sda1'', ''/dev/sdb1'']
            = set [''/dev/sda1'', ''/dev/sdb1'', ''/dev/sda2'']"
    using shuffled_set_order example_devices shuffled_devices
    by (auto simp: shuffled_env_def)
  from t[THEN conjunct2, rule_format, OF this] pure
  have shuffled: "zpool_is_pure_solid_state shuffled_env (PStr ''tank'') = Inr True"
    by simp
  have mixed_ok: "set_order_ok mixed_env"
    using example_set_order by (simp add: set_order_ok_def mixed_env_def)
  have mixed: "zpool_is_pure_solid_state mixed_env (PStr ''tank'') = Inr False"
    unfolding pool_classifier[OF mixed_ok, of "''tank''" False, THEN conjunct1]
    using mixed_devices mixed_base_disk_set mixed_rot by auto
  from pure shuffled mixed example_set_order shuffled_set_order mixed_ok example_devices
    shuffled_devices
  show ?thesis
    by simp
qed

text \<open>
  Claim C5. When the parsed device list of a pool is empty, \<open>zpool_is_pure_solid_state\<close>
  returns true and raises nothing.
\<close>

theorem empty_device_list:
  assumes "set_order_ok env"
    and "block_devices_for_pool env (PStr pool) = Inr []"
  shows "zpool_is_pure_solid_state env (PStr pool) = Inr True"
proof -
  from assms(1) have "set (set_order env []) = {}"
    unfolding set_order_ok_def by simp
  then have "set_order env [] = []"
    by simp
  with assms(2) show ?thesis
    by (simp add: zpool_is_pure_solid_state_def)
qed

theorem empty_device_list_witness:
  "set_order_ok example_env
   \<and> block_devices_for_pool example_env (PStr ''empty'') = Inr []
   \<and> zpool_is_pure_solid_state example_env (PStr ''empty'') = Inr True"
  using empty_device_list[OF example_set_order example_empty_devices]
    example_set_order example_empty_devices
  by simp

end
